theory Spec2Isabelle
  imports Complex_Main "HOL-Library.Multiset"
begin

section \<open>Records and sizes (base.py)\<close>

text \<open>
  A record is a tuple of integers whose element 0 is the key. The loaders never hand an
  empty record to an index (rows without a value are skipped), so a record is modelled
  as its key together with the remaining fields.
\<close>

type_synonym entry = "int \<times> int list"

definition entry_items :: "entry \<Rightarrow> int list" where
  "entry_items r = fst r # snd r"

text \<open>
  \<^verbatim>\<open>get_size\<close> adds up \<^verbatim>\<open>__sizeof__()\<close> of the items of a list, and is
  \<^verbatim>\<open>__sizeof__()\<close> of anything else. The interpreter's \<^verbatim>\<open>__sizeof__\<close> is a
  parameter of the model: of an integer, of a tuple, of a page instance and of
  \<^verbatim>\<open>None\<close>.
\<close>

record sizing =
  int_sizeof :: "int \<Rightarrow> int"
  tuple_sizeof :: "entry \<Rightarrow> int"
  page_sizeof :: int
  none_sizeof :: int

text \<open>The argument of an insert is a Python list (script loader) or a tuple (prompt, split).\<close>

datatype pyseq = PyList entry | PyTuple entry

fun seq_entry :: "pyseq \<Rightarrow> entry" where
  "seq_entry (PyList r) = r"
| "seq_entry (PyTuple r) = r"

fun get_size :: "sizing \<Rightarrow> pyseq \<Rightarrow> int" where
  "get_size sz (PyList r) = sum_list (map (int_sizeof sz) (entry_items r))"
| "get_size sz (PyTuple r) = tuple_sizeof sz r"

text \<open>\<^verbatim>\<open>used_space\<close> of a page of records: \<^verbatim>\<open>get_size(self._data)\<close>, a list of tuples.\<close>

definition used_space_records :: "sizing \<Rightarrow> entry list \<Rightarrow> int" where
  "used_space_records sz data = sum_list (map (tuple_sizeof sz) data)"

section \<open>Leaf pages (btree.py)\<close>

text \<open>The loop of \<^verbatim>\<open>TreePage.binary_search\<close>; \<open>en\<close> is the local \<^verbatim>\<open>end\<close>.\<close>

function bs_loop :: "int list \<Rightarrow> int \<Rightarrow> nat \<Rightarrow> nat \<Rightarrow> nat" where
  "bs_loop L key bgn en =
     (if bgn < en then
        (let h = (bgn + en) div 2 in
         if key < L ! h then bs_loop L key bgn h
         else bs_loop L key (h + 1) en)
      else bgn)"
  by pat_completeness auto
termination
  by (relation "measure (\<lambda>(L, key, bgn, en). en - bgn)") auto

declare bs_loop.simps [simp del]

definition binary_search :: "int list \<Rightarrow> int \<Rightarrow> nat" where
  "binary_search L key = bs_loop L key 0 (length L)"

definition leaf_key_list :: "entry list \<Rightarrow> int list" where
  "leaf_key_list data = map fst data"

text \<open>\<^verbatim>\<open>list.insert(position, x)\<close> for a position between 0 and the length.\<close>

definition list_insert :: "'a list \<Rightarrow> nat \<Rightarrow> 'a \<Rightarrow> 'a list" where
  "list_insert xs p x = take p xs @ x # drop p xs"

definition LeafPage_insert :: "entry list \<Rightarrow> entry \<Rightarrow> bool \<times> entry list" where
  "LeafPage_insert data r =
     (let position = binary_search (leaf_key_list data) (fst r)
      in (True, list_insert data position r))"

text \<open>
  The removal loop of \<^verbatim>\<open>LeafPage.remove\<close> and of \<^verbatim>\<open>HashPage.remove\<close>: the first record
  with the key is popped.
\<close>

fun pop_first :: "entry list \<Rightarrow> int \<Rightarrow> bool \<times> entry list" where
  "pop_first [] key = (False, [])"
| "pop_first (r # rs) key =
     (if fst r = key then (True, rs)
      else (case pop_first rs key of (b, rs') \<Rightarrow> (b, r # rs')))"

definition LeafPage_remove :: "entry list \<Rightarrow> int \<Rightarrow> bool \<times> entry list" where
  "LeafPage_remove data key = pop_first data key"

definition LeafPage_search :: "entry list \<Rightarrow> int \<Rightarrow> entry list" where
  "LeafPage_search data key = filter (\<lambda>r. fst r = key) data"

definition LeafPage_split :: "entry list \<Rightarrow> entry list \<times> entry list" where
  "LeafPage_split data = (let mid = length data div 2 in (take mid data, drop mid data))"

text \<open>A leaf with a repeated key, used in the examples.\<close>

definition leaf_example :: "entry list" where
  "leaf_example = [(3, [0]), (5, [1]), (5, [2]), (8, [0])]"

section \<open>Hash buckets (linear_hash.py)\<close>

text \<open>A bucket page: its records and its overflow page (\<^verbatim>\<open>None\<close> or another page).\<close>

datatype hashpage = HashPage (hp_data: "entry list") (hp_overflow: "hashpage option")

fun HashPage_search :: "hashpage \<Rightarrow> int \<Rightarrow> entry list" where
  "HashPage_search (HashPage data ov) key =
     (case find (\<lambda>r. fst r = key) data of
        Some r \<Rightarrow> [r]
      | None \<Rightarrow> (case ov of None \<Rightarrow> [] | Some p \<Rightarrow> HashPage_search p key))"

fun get_all_records :: "hashpage \<Rightarrow> entry list" where
  "get_all_records (HashPage data ov) =
     data @ (case ov of None \<Rightarrow> [] | Some p \<Rightarrow> get_all_records p)"

fun HashPage_remove :: "hashpage \<Rightarrow> int \<Rightarrow> bool \<times> hashpage" where
  "HashPage_remove (HashPage data ov) key =
     (case pop_first data key of
        (True, data') \<Rightarrow> (True, HashPage data' ov)
      | (False, _) \<Rightarrow>
          (case ov of
             None \<Rightarrow> (False, HashPage data ov)
           | Some p \<Rightarrow> (case HashPage_remove p key of (b, p') \<Rightarrow> (b, HashPage data (Some p')))))"

text \<open>
  \<^verbatim>\<open>HashPage.insert\<close>. \<open>S\<close> is the page size, the same for every page of an index. A
  record that does not fit the page goes to the overflow page, which is created when
  missing; nothing bounds that recursion, so the result is an option and \<open>None\<close> stands
  for a call that does not return (in CPython it ends in a RecursionError).
\<close>

partial_function (option) HashPage_insert ::
  "sizing \<Rightarrow> int \<Rightarrow> hashpage \<Rightarrow> pyseq \<Rightarrow> (bool \<times> hashpage) option" where
  "HashPage_insert sz S p record =
     (if HashPage_search p (fst (seq_entry record)) \<noteq> [] then Some (False, p)
      else if used_space_records sz (hp_data p) + get_size sz record \<le> S
        then Some (True, HashPage (hp_data p @ [seq_entry record]) (hp_overflow p))
      else Option.bind
             (HashPage_insert sz S
                (case hp_overflow p of None \<Rightarrow> HashPage [] None | Some ov \<Rightarrow> ov) record)
             (\<lambda>res. Some (fst res, HashPage (hp_data p) (Some (snd res)))))"

section \<open>The linear hashing index (linear_hash.py)\<close>

text \<open>
  The fields of \<^verbatim>\<open>LinearHashIndex\<close>. The level and the split pointer only count up from 0;
  the page size and the initial bucket count are the caller's integers.
\<close>

record LinearHashIndex =
  lh_size :: int
  level :: nat
  next_split :: nat
  initial_buckets :: int
  num_buckets :: int
  buckets :: "hashpage list"
  num_records :: int
  num_splits :: nat

definition LinearHashIndex_init :: "int \<Rightarrow> int \<Rightarrow> LinearHashIndex" where
  "LinearHashIndex_init S N0 =
     \<lparr>lh_size = S, level = 0, next_split = 0, initial_buckets = N0, num_buckets = N0,
      buckets = replicate (nat N0) (HashPage [] None), num_records = 0, num_splits = 0\<rparr>"

text \<open>\<^verbatim>\<open>_hash\<close>: Python's \<^verbatim>\<open>%\<close> raises on a zero modulus (\<open>None\<close>).\<close>

definition lh_hash :: "LinearHashIndex \<Rightarrow> int \<Rightarrow> nat \<Rightarrow> int option" where
  "lh_hash st key lvl =
     (let m = 2 ^ lvl * initial_buckets st in if m = 0 then None else Some (key mod m))"

definition get_bucket_index :: "LinearHashIndex \<Rightarrow> int \<Rightarrow> int option" where
  "get_bucket_index st key =
     (case lh_hash st key (level st) of
        None \<Rightarrow> None
      | Some bucket_idx \<Rightarrow>
          if bucket_idx < int (next_split st) then lh_hash st key (level st + 1)
          else Some bucket_idx)"

text \<open>
  The position a Python index denotes in a list: a negative index counts from the end,
  an index out of range raises (\<open>None\<close>).
\<close>

definition py_index :: "'a list \<Rightarrow> int \<Rightarrow> nat option" where
  "py_index xs i =
     (if 0 \<le> i \<and> i < int (length xs) then Some (nat i)
      else if i < 0 \<and> - int (length xs) \<le> i then Some (nat (int (length xs) + i))
      else None)"

text \<open>
  \<^verbatim>\<open>_need_split\<close> compares \<^verbatim>\<open>(num_records / num_buckets) / (size / get_size([0, 0, 0]))\<close>
  with the utilization in double precision. The outcome of that comparison, as a
  function of \<open>num_records\<close> and \<open>num_buckets\<close> (page size and utilization never change),
  is the parameter \<open>reached\<close>; the three divisions raise on a zero divisor.
\<close>

type_synonym load_test = "int \<Rightarrow> int \<Rightarrow> bool"

definition need_split :: "sizing \<Rightarrow> load_test \<Rightarrow> LinearHashIndex \<Rightarrow> bool option" where
  "need_split sz reached st =
     (if num_buckets st = 0 \<or> 3 * int_sizeof sz 0 = 0 \<or> lh_size st = 0 then None
      else Some (reached (num_records st) (num_buckets st)))"

text \<open>
  The redistribution loop of \<^verbatim>\<open>_split\<close> over the drained records, which are tuples; the
  state of the loop is the pair of the old and the new bucket.
\<close>

fun redistribute ::
  "sizing \<Rightarrow> LinearHashIndex \<Rightarrow> nat \<Rightarrow> entry list \<Rightarrow> hashpage \<times> hashpage
     \<Rightarrow> (hashpage \<times> hashpage) option" where
  "redistribute sz st old_bucket_idx [] (old_bucket, new_bucket) = Some (old_bucket, new_bucket)"
| "redistribute sz st old_bucket_idx (r # rs) (old_bucket, new_bucket) =
     (case lh_hash st (fst r) (level st + 1) of
        None \<Rightarrow> None
      | Some bucket_idx \<Rightarrow>
          if bucket_idx = int old_bucket_idx then
            (case HashPage_insert sz (lh_size st) old_bucket (PyTuple r) of
               None \<Rightarrow> None
             | Some res \<Rightarrow> redistribute sz st old_bucket_idx rs (snd res, new_bucket))
          else
            (case HashPage_insert sz (lh_size st) new_bucket (PyTuple r) of
               None \<Rightarrow> None
             | Some res \<Rightarrow> redistribute sz st old_bucket_idx rs (old_bucket, snd res)))"

text \<open>
  \<^verbatim>\<open>_split\<close>. The new bucket is appended to the list; \<^verbatim>\<open>new_bucket_idx\<close> is only logged.
\<close>

definition LinearHashIndex_split :: "sizing \<Rightarrow> LinearHashIndex \<Rightarrow> LinearHashIndex option" where
  "LinearHashIndex_split sz st =
     (let old_bucket_idx = next_split st in
      if old_bucket_idx < length (buckets st) then
        (let records = get_all_records (buckets st ! old_bucket_idx) in
         case redistribute sz st old_bucket_idx records (HashPage [] None, HashPage [] None) of
           None \<Rightarrow> None
         | Some (old_bucket, new_bucket) \<Rightarrow>
             (let sp = next_split st + 1;
                  round_done = (int sp \<ge> 2 ^ level st * initial_buckets st)
              in Some (st\<lparr>num_splits := num_splits st + 1,
                          buckets := (buckets st)[old_bucket_idx := old_bucket] @ [new_bucket],
                          num_buckets := num_buckets st + 1,
                          next_split := (if round_done then 0 else sp),
                          level := (if round_done then level st + 1 else level st)\<rparr>)))
      else None)"

definition LinearHashIndex_insert ::
  "sizing \<Rightarrow> load_test \<Rightarrow> LinearHashIndex \<Rightarrow> pyseq \<Rightarrow> (bool \<times> LinearHashIndex) option" where
  "LinearHashIndex_insert sz reached st record =
     (case get_bucket_index st (fst (seq_entry record)) of
        None \<Rightarrow> None
      | Some bucket_idx \<Rightarrow>
     (case py_index (buckets st) bucket_idx of
        None \<Rightarrow> None
      | Some i \<Rightarrow>
     (case HashPage_insert sz (lh_size st) (buckets st ! i) record of
        None \<Rightarrow> None
      | Some (ok, bucket) \<Rightarrow>
          if ok then
            (let st1 = st\<lparr>buckets := (buckets st)[i := bucket],
                           num_records := num_records st + 1\<rparr> in
             case need_split sz reached st1 of
               None \<Rightarrow> None
             | Some True \<Rightarrow> map_option (Pair True) (LinearHashIndex_split sz st1)
             | Some False \<Rightarrow> Some (True, st1))
          else Some (False, st\<lparr>buckets := (buckets st)[i := bucket]\<rparr>))))"

definition LinearHashIndex_remove ::
  "LinearHashIndex \<Rightarrow> int \<Rightarrow> (bool \<times> LinearHashIndex) option" where
  "LinearHashIndex_remove st key =
     (case get_bucket_index st key of
        None \<Rightarrow> None
      | Some bucket_idx \<Rightarrow>
     (case py_index (buckets st) bucket_idx of
        None \<Rightarrow> None
      | Some i \<Rightarrow>
     (case HashPage_remove (buckets st ! i) key of
        (True, bucket) \<Rightarrow>
          Some (True, st\<lparr>buckets := (buckets st)[i := bucket],
                           num_records := num_records st - 1\<rparr>)
      | (False, bucket) \<Rightarrow> Some (False, st\<lparr>buckets := (buckets st)[i := bucket]\<rparr>))))"

definition LinearHashIndex_search :: "LinearHashIndex \<Rightarrow> int \<Rightarrow> entry list option" where
  "LinearHashIndex_search st key =
     (case get_bucket_index st key of
        None \<Rightarrow> None
      | Some bucket_idx \<Rightarrow>
     (case py_index (buckets st) bucket_idx of
        None \<Rightarrow> None
      | Some i \<Rightarrow> Some (HashPage_search (buckets st ! i) key)))"

text \<open>
  The sizes of CPython 3.11 on a 64-bit machine, for the examples: an integer takes 24
  bytes and 4 more for each 30-bit digit (at least one), a tuple 24 bytes and 8 for each
  item, a page instance 24 bytes, \<^verbatim>\<open>None\<close> 16.
\<close>

function digits30 :: "int \<Rightarrow> int" where
  "digits30 n = (if n < 2 ^ 30 then 1 else 1 + digits30 (n div 2 ^ 30))"
  by pat_completeness auto
termination
  by (relation "measure nat") auto

declare digits30.simps [simp del]

definition cpython_sizing :: sizing where
  "cpython_sizing =
     \<lparr>int_sizeof = (\<lambda>v. 24 + 4 * digits30 \<bar>v\<bar>),
      tuple_sizeof = (\<lambda>r. 24 + 8 * int (length (entry_items r))),
      page_sizeof = 24,
      none_sizeof = 16\<rparr>"

text \<open>
  The load test in exact arithmetic, for the examples: away from the threshold the double
  precision comparison has the same outcome.
\<close>

definition exact_load_test :: "sizing \<Rightarrow> int \<Rightarrow> rat \<Rightarrow> load_test" where
  "exact_load_test sz S U nr nb =
     (of_int nr / of_int nb / (of_int S / of_int (3 * int_sizeof sz 0)) \<ge> U)"

section \<open>Runs of the linear hashing index and what they maintain\<close>

datatype lh_op = Insert pyseq | Remove int | Search int

fun lh_step ::
  "sizing \<Rightarrow> load_test \<Rightarrow> LinearHashIndex \<Rightarrow> lh_op \<Rightarrow> LinearHashIndex option" where
  "lh_step sz reached st (Insert record) =
     map_option snd (LinearHashIndex_insert sz reached st record)"
| "lh_step sz reached st (Remove key) = map_option snd (LinearHashIndex_remove st key)"
| "lh_step sz reached st (Search key) =
     map_option (\<lambda>found. st) (LinearHashIndex_search st key)"

text \<open>A run stops at the first operation that does not return.\<close>

fun lh_run ::
  "sizing \<Rightarrow> load_test \<Rightarrow> LinearHashIndex \<Rightarrow> lh_op list \<Rightarrow> LinearHashIndex option" where
  "lh_run sz reached st [] = Some st"
| "lh_run sz reached st (x # xs) =
     (case lh_step sz reached st x of None \<Rightarrow> None | Some st' \<Rightarrow> lh_run sz reached st' xs)"

text \<open>Every stored record is in the chain of the bucket its key is addressed to.\<close>

definition addressing_ok :: "LinearHashIndex \<Rightarrow> bool" where
  "addressing_ok st =
     (\<forall>i<length (buckets st). \<forall>r\<in>set (get_all_records (buckets st ! i)).
        get_bucket_index st (fst r) = Some (int i))"

text \<open>The bucket list has one bucket per address, and no chain holds a key twice.\<close>

definition lh_shape :: "LinearHashIndex \<Rightarrow> bool" where
  "lh_shape st =
     (0 < initial_buckets st
      \<and> int (length (buckets st)) = 2 ^ level st * initial_buckets st + int (next_split st)
      \<and> int (next_split st) < 2 ^ level st * initial_buckets st)"

definition chains_distinct :: "LinearHashIndex \<Rightarrow> bool" where
  "chains_distinct st =
     (\<forall>i<length (buckets st). distinct (map fst (get_all_records (buckets st ! i))))"

definition lh_invar :: "LinearHashIndex \<Rightarrow> bool" where
  "lh_invar st = (lh_shape st \<and> addressing_ok st \<and> chains_distinct st)"

text \<open>The composite addressing rule as a function of \<open>N0\<close>, the level and the split pointer.\<close>

definition address :: "int \<Rightarrow> nat \<Rightarrow> nat \<Rightarrow> int \<Rightarrow> int" where
  "address N0 d sp k =
     (if k mod (2 ^ d * N0) < int sp then k mod (2 ^ d * N0 * 2) else k mod (2 ^ d * N0))"

definition stored_records :: "LinearHashIndex \<Rightarrow> entry multiset" where
  "stored_records st = (\<Sum>b\<leftarrow>buckets st. mset (get_all_records b))"

text \<open>The index after \<^verbatim>\<open>insert([7, 1])\<close> into a new index with 4 buckets.\<close>

definition hash_example :: LinearHashIndex where
  "hash_example =
     \<lparr>lh_size = 512, level = 0, next_split = 0, initial_buckets = 4, num_buckets = 4,
      buckets = [HashPage [] None, HashPage [] None, HashPage [] None,
                 HashPage [(7, [1])] None],
      num_records = 1, num_splits = 0\<rparr>"

text \<open>The load test of an index with 512-byte pages and utilization 0.8.\<close>

definition example_reached :: load_test where
  "example_reached = exact_load_test cpython_sizing 512 (4 / 5)"

text \<open>Five inserts into a new index with one bucket; the fifth one splits bucket 0.\<close>

definition five_inserts :: "lh_op list" where
  "five_inserts = map (\<lambda>k. Insert (PyList (k, []))) [0, 1, 2, 3, 4]"

definition after_five_inserts :: LinearHashIndex where
  "after_five_inserts =
     \<lparr>lh_size = 512, level = 1, next_split = 0, initial_buckets = 1, num_buckets = 2,
      buckets = [HashPage [(0, []), (2, []), (4, [])] None, HashPage [(1, []), (3, [])] None],
      num_records = 5, num_splits = 1\<rparr>"

section \<open>Internal pages and the B-tree (btree.py)\<close>

text \<open>
  The payload of an internal page is one Python list of children and keys in turn:
  \<^verbatim>\<open>[child0, key0, child1, key1, ..., childN]\<close>. A slot of that list is a page, an integer
  or \<^verbatim>\<open>None\<close> (what \<^verbatim>\<open>LeafPage.get_key\<close> returns out of range).
\<close>

datatype 'p slot = is_Child: Child 'p | is_Key: Key int | NoKey

datatype page = LeafPage "entry list" | NonLeafPage "page slot list"

fun slot_sizeof :: "sizing \<Rightarrow> page slot \<Rightarrow> int" where
  "slot_sizeof sz (Child c) = page_sizeof sz"
| "slot_sizeof sz (Key k) = int_sizeof sz k"
| "slot_sizeof sz NoKey = none_sizeof sz"

fun used_space :: "sizing \<Rightarrow> page \<Rightarrow> int" where
  "used_space sz (LeafPage data) = used_space_records sz data"
| "used_space sz (NonLeafPage data) = sum_list (map (slot_sizeof sz) data)"

text \<open>Every second item of a list from its first one on: the slice \<^verbatim>\<open>xs[0::2]\<close>.\<close>

fun step2 :: "'a list \<Rightarrow> 'a list" where
  "step2 [] = []"
| "step2 [x] = [x]"
| "step2 (x # y # zs) = x # step2 zs"

text \<open>
  \<^verbatim>\<open>NonLeafPage.get_key_list\<close>, the items at positions \<^verbatim>\<open>range(1, len, 2)\<close>, and the items
  at positions \<^verbatim>\<open>range(0, len, 2)\<close> that the statistics walk over.
\<close>

definition get_key_list :: "page slot list \<Rightarrow> page slot list" where
  "get_key_list data = step2 (drop 1 data)"

definition child_slots :: "page slot list \<Rightarrow> page slot list" where
  "child_slots data = step2 data"

text \<open>
  The loop of \<^verbatim>\<open>NonLeafPage.binary_search\<close>. Comparing the key with anything but an
  integer raises (\<open>None\<close>).
\<close>

function nl_bs_loop :: "page slot list \<Rightarrow> int \<Rightarrow> nat \<Rightarrow> nat \<Rightarrow> nat option" where
  "nl_bs_loop key_list key bgn en =
     (if bgn < en then
        (let h = (bgn + en) div 2 in
         case key_list ! h of
           Key k \<Rightarrow>
             if key < k then nl_bs_loop key_list key bgn h
             else nl_bs_loop key_list key (h + 1) en
         | _ \<Rightarrow> None)
      else Some bgn)"
  by pat_completeness auto
termination
  by (relation "measure (\<lambda>(key_list, key, bgn, en). en - bgn)") auto

declare nl_bs_loop.simps [simp del]

definition NonLeafPage_binary_search :: "page slot list \<Rightarrow> int \<Rightarrow> nat option" where
  "NonLeafPage_binary_search data key =
     map_option (\<lambda>b. b * 2)
       (nl_bs_loop (get_key_list data) key 0 (length (get_key_list data)))"

text \<open>\<^verbatim>\<open>NonLeafPage.split\<close>: the kept payload and the payload of the new page.\<close>

definition NonLeafPage_split :: "page slot list \<Rightarrow> page slot list \<times> page slot list" where
  "NonLeafPage_split data =
     (let mid = length data div 2;
          mid = (if mid mod 2 = 1 then mid - 1 else mid)
      in (take mid data, drop mid data))"

text \<open>\<^verbatim>\<open>child.split()\<close>: the page as it is left, and the new page.\<close>

fun page_split :: "page \<Rightarrow> page \<times> page" where
  "page_split (LeafPage data) =
     (case LeafPage_split data of (kept, moved) \<Rightarrow> (LeafPage kept, LeafPage moved))"
| "page_split (NonLeafPage data) =
     (case NonLeafPage_split data of (kept, moved) \<Rightarrow> (NonLeafPage kept, NonLeafPage moved))"

text \<open>
  The separator taken from the new page, which has the class of the page that was split:
  \<^verbatim>\<open>get_key(0)\<close> of a leaf (\<^verbatim>\<open>None\<close> when it is empty), \<^verbatim>\<open>get_key_list()[0]\<close> of an
  internal page (an IndexError when it has no key).
\<close>

fun separator_key :: "page \<Rightarrow> page slot option" where
  "separator_key (LeafPage data) = Some (case data of [] \<Rightarrow> NoKey | r # rs \<Rightarrow> Key (fst r))"
| "separator_key (NonLeafPage data) =
     (case get_key_list data of [] \<Rightarrow> None | s # ss \<Rightarrow> Some s)"

text \<open>\<^verbatim>\<open>NonLeafPage._split_child\<close> on the payload of the parent.\<close>

definition split_child :: "page slot list \<Rightarrow> nat \<Rightarrow> page slot list option" where
  "split_child data child_pos =
     (if child_pos < length data then
        (case data ! child_pos of
           Child child \<Rightarrow>
             (case page_split child of
                (child', new_child) \<Rightarrow>
                  (case separator_key new_child of
                     None \<Rightarrow> None
                   | Some new_key \<Rightarrow>
                       Some (list_insert
                               (list_insert (data[child_pos := Child child']) (child_pos + 1) new_key)
                               (child_pos + 2) (Child new_child))))
         | _ \<Rightarrow> None)
      else None)"

lemma child_smaller [termination_simp]:
  "i < length data \<Longrightarrow> data ! i = Child c \<Longrightarrow> size c < Suc (size_list (size_slot size) data)"
proof -
  assume "i < length data" "data ! i = Child c"
  then have "Child c \<in> set data" by (metis nth_mem)
  then have "size_slot size (Child c) \<le> size_list (size_slot size) data"
    by (simp add: size_list_estimation')
  then show ?thesis by simp
qed

text \<open>
  \<^verbatim>\<open>insert\<close> of a page: of a leaf, or of an internal page, which passes the record down
  and splits the child when it has outgrown the page size \<open>S\<close>. Calling \<^verbatim>\<open>insert\<close> on a
  slot that is no page raises (\<open>None\<close>).
\<close>

function page_insert :: "sizing \<Rightarrow> int \<Rightarrow> page \<Rightarrow> entry \<Rightarrow> page option" where
  "page_insert sz S (LeafPage data) r = Some (LeafPage (snd (LeafPage_insert data r)))"
| "page_insert sz S (NonLeafPage data) r =
     (case NonLeafPage_binary_search data (fst r) of
        None \<Rightarrow> None
      | Some child_pos \<Rightarrow>
          if child_pos < length data then
            (case data ! child_pos of
               Child child \<Rightarrow>
                 (case page_insert sz S child r of
                    None \<Rightarrow> None
                  | Some child' \<Rightarrow>
                      if used_space sz child' > S
                      then map_option NonLeafPage
                             (split_child (data[child_pos := Child child']) child_pos)
                      else Some (NonLeafPage (data[child_pos := Child child'])))
             | _ \<Rightarrow> None)
          else Some (NonLeafPage data))"
  by pat_completeness auto
termination
  by (relation "measure (\<lambda>(sz, S, p, r). size p)") (auto simp: child_smaller)

function page_remove :: "page \<Rightarrow> int \<Rightarrow> (bool \<times> page) option" where
  "page_remove (LeafPage data) key =
     (case LeafPage_remove data key of (result, data') \<Rightarrow> Some (result, LeafPage data'))"
| "page_remove (NonLeafPage data) key =
     (case NonLeafPage_binary_search data key of
        None \<Rightarrow> None
      | Some child_pos \<Rightarrow>
          if child_pos < length data then
            (case data ! child_pos of
               Child child \<Rightarrow>
                 (case page_remove child key of
                    None \<Rightarrow> None
                  | Some (result, child') \<Rightarrow>
                      Some (result, NonLeafPage (data[child_pos := Child child'])))
             | _ \<Rightarrow> None)
          else Some (False, NonLeafPage data))"
  by pat_completeness auto
termination
  by (relation "measure (\<lambda>(p, key). size p)") (auto simp: child_smaller)

function page_search :: "page \<Rightarrow> int \<Rightarrow> entry list option" where
  "page_search (LeafPage data) key = Some (LeafPage_search data key)"
| "page_search (NonLeafPage data) key =
     (case NonLeafPage_binary_search data key of
        None \<Rightarrow> None
      | Some child_pos \<Rightarrow>
          if child_pos < length data then
            (case data ! child_pos of
               Child child \<Rightarrow> page_search child key
             | _ \<Rightarrow> None)
          else Some [])"
  by pat_completeness auto
termination
  by (relation "measure (\<lambda>(p, key). size p)") (auto simp: child_smaller)

text \<open>The driver \<^verbatim>\<open>BTreeIndex\<close>: its state is the root page.\<close>

definition BTreeIndex_init :: page where
  "BTreeIndex_init = LeafPage []"

definition BTreeIndex_insert :: "sizing \<Rightarrow> int \<Rightarrow> page \<Rightarrow> entry \<Rightarrow> page option" where
  "BTreeIndex_insert sz S rootp r =
     (case page_insert sz S rootp r of
        None \<Rightarrow> None
      | Some rootp' \<Rightarrow>
          if used_space sz rootp' > S then
            (case page_split rootp' of
               (old_root, new_sibling) \<Rightarrow>
                 (case separator_key new_sibling of
                    None \<Rightarrow> None
                  | Some separator \<Rightarrow>
                      Some (NonLeafPage [Child old_root, separator, Child new_sibling])))
          else Some rootp')"

text \<open>
  \<^verbatim>\<open>BTreeIndex.remove\<close>. The collapse makes whatever the single slot holds the root; with
  anything but a page there, every later call raises, which the model reports at once.
\<close>

definition collapses :: "page \<Rightarrow> bool" where
  "collapses rootp = (case rootp of NonLeafPage data \<Rightarrow> length data = 1 | LeafPage data \<Rightarrow> False)"

definition BTreeIndex_remove :: "page \<Rightarrow> int \<Rightarrow> (bool \<times> page) option" where
  "BTreeIndex_remove rootp key =
     (case page_remove rootp key of
        None \<Rightarrow> None
      | Some (result, rootp') \<Rightarrow>
          if collapses rootp' then
            (case rootp' of
               NonLeafPage (Child c # rest) \<Rightarrow> Some (result, c)
             | _ \<Rightarrow> None)
          else Some (result, rootp'))"

definition BTreeIndex_search :: "page \<Rightarrow> int \<Rightarrow> entry list option" where
  "BTreeIndex_search rootp key = page_search rootp key"

text \<open>
  \<^verbatim>\<open>_get_height\<close>: 1 for a leaf, else 1 more than the greatest height among the slots at
  the even positions; a slot there that is no page raises.
\<close>

lemma step2_subset: "set (step2 xs) \<subseteq> set xs"
  by (induction xs rule: step2.induct) auto

lemma child_slot_smaller [termination_simp]:
  "Child c \<in> set (child_slots data) \<Longrightarrow> size c < Suc (size_list (size_slot size) data)"
proof -
  assume "Child c \<in> set (child_slots data)"
  then have "Child c \<in> set data" using step2_subset [of data] by (auto simp: child_slots_def)
  then have "size_slot size (Child c) \<le> size_list (size_slot size) data"
    by (simp add: size_list_estimation')
  then show ?thesis by simp
qed

fun get_height :: "page \<Rightarrow> nat option" where
  "get_height (LeafPage data) = Some 1"
| "get_height (NonLeafPage data) =
     map_option (\<lambda>hs. 1 + fold max hs 0)
       (those (map (\<lambda>s. case s of Child c \<Rightarrow> get_height c | _ \<Rightarrow> None) (child_slots data)))"

section \<open>Runs of the B-tree\<close>

datatype bt_op = BInsert entry | BRemove int | BSearch int

fun bt_step :: "sizing \<Rightarrow> int \<Rightarrow> page \<Rightarrow> bt_op \<Rightarrow> page option" where
  "bt_step sz S rootp (BInsert r) = BTreeIndex_insert sz S rootp r"
| "bt_step sz S rootp (BRemove key) = map_option snd (BTreeIndex_remove rootp key)"
| "bt_step sz S rootp (BSearch key) = map_option (\<lambda>found. rootp) (BTreeIndex_search rootp key)"

fun bt_run :: "sizing \<Rightarrow> int \<Rightarrow> page \<Rightarrow> bt_op list \<Rightarrow> page option" where
  "bt_run sz S rootp [] = Some rootp"
| "bt_run sz S rootp (x # xs) =
     (case bt_step sz S rootp x of None \<Rightarrow> None | Some rootp' \<Rightarrow> bt_run sz S rootp' xs)"

lemma child_member_smaller [termination_simp]:
  "Child c \<in> set data \<Longrightarrow> size c < Suc (size_list (size_slot size) data)"
proof -
  assume "Child c \<in> set data"
  then have "size_slot size (Child c) \<le> size_list (size_slot size) data"
    by (simp add: size_list_estimation')
  then show ?thesis by simp
qed

text \<open>The records stored in the subtree of a page.\<close>

fun page_records :: "page \<Rightarrow> entry multiset" where
  "page_records (LeafPage data) = mset data"
| "page_records (NonLeafPage data) =
     (\<Sum>s\<leftarrow>data. case s of Child c \<Rightarrow> page_records c | _ \<Rightarrow> {#})"

text \<open>An internal page over three leaves, and an index whose bucket 0 is due for a split.\<close>

definition node_example :: page where
  "node_example =
     NonLeafPage [Child (LeafPage [(1, []), (2, [])]), Key 3,
                  Child (LeafPage [(3, []), (4, [])]), Key 5,
                  Child (LeafPage [(5, []), (6, [])])]"

definition before_split :: LinearHashIndex where
  "before_split =
     \<lparr>lh_size = 512, level = 0, next_split = 0, initial_buckets = 1, num_buckets = 1,
      buckets = [HashPage [(0, []), (1, []), (2, []), (3, []), (4, [])] None],
      num_records = 5, num_splits = 0\<rparr>"

text \<open>
  The layout the class comment of \<^verbatim>\<open>NonLeafPage\<close> describes, as far as every page reached
  from a new tree has it: pages at the even positions of a payload, integer keys at the
  odd ones, never a payload of one slot, and the same for every page below.
\<close>

definition alternating :: "page slot list \<Rightarrow> bool" where
  "alternating data = (list_all is_Child (child_slots data) \<and> list_all is_Key (get_key_list data))"

fun page_ok :: "page \<Rightarrow> bool" where
  "page_ok (LeafPage data) = True"
| "page_ok (NonLeafPage data) =
     (alternating data \<and> length data \<noteq> 1
      \<and> list_all (\<lambda>s. case s of Child c \<Rightarrow> page_ok c | _ \<Rightarrow> True) data)"

text \<open>The height of a tree as a total function: 1 more than the greatest height below.\<close>

fun lmax :: "nat list \<Rightarrow> nat" where
  "lmax [] = 0"
| "lmax (h # hs) = max h (lmax hs)"

fun tree_height :: "page \<Rightarrow> nat" where
  "tree_height (LeafPage data) = 1"
| "tree_height (NonLeafPage data) =
     1 + lmax (map (\<lambda>s. case s of Child c \<Rightarrow> tree_height c | _ \<Rightarrow> 0) data)"

text \<open>A tree without its records: its internal pages, with their children and keys in place.\<close>

lemma slot_member_smaller [termination_simp]:
  "x \<in> set data \<Longrightarrow> z \<in> set_slot x \<Longrightarrow> size z < Suc (size_list (size_slot size) data)"
proof -
  assume x: "x \<in> set data" and z: "z \<in> set_slot x"
  from z have "x = Child z" by (cases x) simp_all
  with x show ?thesis by (simp add: child_member_smaller)
qed

fun page_shape :: "page \<Rightarrow> page" where
  "page_shape (LeafPage data) = LeafPage []"
| "page_shape (NonLeafPage data) = NonLeafPage (map (map_slot page_shape) data)"

fun payload_length :: "page \<Rightarrow> nat" where
  "payload_length (LeafPage data) = length data"
| "payload_length (NonLeafPage data) = length data"

fun is_leaf :: "page \<Rightarrow> bool" where
  "is_leaf (LeafPage data) = True"
| "is_leaf (NonLeafPage data) = False"

text \<open>The root of a tree is a leaf, or an internal page of at least three slots.\<close>

definition root_ok :: "page \<Rightarrow> bool" where
  "root_ok rootp = (page_ok rootp \<and> (is_leaf rootp \<or> 3 \<le> payload_length rootp))"

text \<open>The first key of a page: the key of its first record, or its first separator.\<close>

fun first_key :: "page \<Rightarrow> int option" where
  "first_key (LeafPage data) = (case data of [] \<Rightarrow> None | r # rs \<Rightarrow> Some (fst r))"
| "first_key (NonLeafPage data) = (case data of a # Key k # rest \<Rightarrow> Some k | _ \<Rightarrow> None)"

section \<open>A tree with 512-byte pages\<close>

text \<open>
  The records \<^verbatim>\<open>[k, 0, 0]\<close> for \<open>k = 1, 2, ...\<close> inserted in turn into a new tree with the
  default page size 512, under the sizes of CPython 3.11: a leaf holds ten of these
  records, an internal page ten children.
\<close>

definition rec3 :: "int \<Rightarrow> entry" where
  "rec3 k = (k, [0, 0])"

definition leaf_of :: "int \<Rightarrow> int \<Rightarrow> page" where
  "leaf_of a b = LeafPage (map rec3 [a..b])"

definition inserts_upto :: "int \<Rightarrow> bt_op list" where
  "inserts_upto n = map (\<lambda>k. BInsert (rec3 k)) [1..n]"

text \<open>The tree after 55 inserts: a root over ten leaves.\<close>

definition tree_55 :: page where
  "tree_55 =
     NonLeafPage [Child (leaf_of 1 5), Key 6, Child (leaf_of 6 10), Key 11,
                  Child (leaf_of 11 15), Key 16, Child (leaf_of 16 20), Key 21,
                  Child (leaf_of 21 25), Key 26, Child (leaf_of 26 30), Key 31,
                  Child (leaf_of 31 35), Key 36, Child (leaf_of 36 40), Key 41,
                  Child (leaf_of 41 45), Key 46, Child (leaf_of 46 55)]"

text \<open>
  The root when the 56th record has gone in and its last leaf has been split, and the two
  pages \<^verbatim>\<open>split()\<close> makes of it: the root object as it is left, and the new sibling.
\<close>

definition root_56 :: page where
  "root_56 =
     NonLeafPage [Child (leaf_of 1 5), Key 6, Child (leaf_of 6 10), Key 11,
                  Child (leaf_of 11 15), Key 16, Child (leaf_of 16 20), Key 21,
                  Child (leaf_of 21 25), Key 26, Child (leaf_of 26 30), Key 31,
                  Child (leaf_of 31 35), Key 36, Child (leaf_of 36 40), Key 41,
                  Child (leaf_of 41 45), Key 46, Child (leaf_of 46 50), Key 51,
                  Child (leaf_of 51 56)]"

definition old_root_56 :: page where
  "old_root_56 =
     NonLeafPage [Child (leaf_of 1 5), Key 6, Child (leaf_of 6 10), Key 11,
                  Child (leaf_of 11 15), Key 16, Child (leaf_of 16 20), Key 21,
                  Child (leaf_of 21 25), Key 26]"

definition new_sibling_56 :: page where
  "new_sibling_56 =
     NonLeafPage [Child (leaf_of 26 30), Key 31,
                  Child (leaf_of 31 35), Key 36, Child (leaf_of 36 40), Key 41,
                  Child (leaf_of 41 45), Key 46, Child (leaf_of 46 50), Key 51,
                  Child (leaf_of 51 56)]"

definition tree_56 :: page where
  "tree_56 = NonLeafPage [Child old_root_56, Key 31, Child new_sibling_56]"

section \<open>Leaf insertion keeps the keys ordered\<close>

lemma bs_loop_bounds:
  "bgn \<le> en \<Longrightarrow> bgn \<le> bs_loop L key bgn en \<and> bs_loop L key bgn en \<le> en"
proof (induction L key bgn en rule: bs_loop.induct)
  case (1 L key bgn en)
  show ?case
  proof (cases "bgn < en")
    case False
    with "1.prems" show ?thesis by (simp add: bs_loop.simps)
  next
    case True
    let ?h = "(bgn + en) div 2"
    have hb: "bgn \<le> ?h" "?h < en" using True by auto
    show ?thesis
    proof (cases "key < L ! ?h")
      case True
      with "1.IH"(1) [OF \<open>bgn < en\<close> refl True] hb \<open>bgn < en\<close>
      show ?thesis by (subst (1 2) bs_loop.simps) (simp add: Let_def)
    next
      case False
      with "1.IH"(2) [OF \<open>bgn < en\<close> refl False] hb \<open>bgn < en\<close>
      show ?thesis by (subst (1 2) bs_loop.simps) (simp add: Let_def)
    qed
  qed
qed

lemma bs_loop_partition:
  assumes "sorted L" "en \<le> length L" "bgn \<le> en"
    and "\<forall>i<bgn. L ! i \<le> key" and "\<forall>i. en \<le> i \<and> i < length L \<longrightarrow> key < L ! i"
  shows "(\<forall>i<bs_loop L key bgn en. L ! i \<le> key) \<and>
         (\<forall>i. bs_loop L key bgn en \<le> i \<and> i < length L \<longrightarrow> key < L ! i)"
  using assms
proof (induction L key bgn en rule: bs_loop.induct)
  case (1 L key bgn en)
  show ?case
  proof (cases "bgn < en")
    case False
    with "1.prems" have "bs_loop L key bgn en = bgn" "bgn = en"
      by (simp_all add: bs_loop.simps)
    with "1.prems" show ?thesis by simp
  next
    case lt: True
    let ?h = "(bgn + en) div 2"
    have hb: "bgn \<le> ?h" "?h < en" "?h < length L" using lt "1.prems"(2) by auto
    show ?thesis
    proof (cases "key < L ! ?h")
      case True
      have up: "\<forall>i. ?h \<le> i \<and> i < length L \<longrightarrow> key < L ! i"
      proof (intro allI impI)
        fix i assume "?h \<le> i \<and> i < length L"
        then have "L ! ?h \<le> L ! i" using \<open>sorted L\<close> by (simp add: sorted_nth_mono)
        with True show "key < L ! i" by simp
      qed
      have eq: "bs_loop L key bgn en = bs_loop L key bgn ?h"
        using lt True by (subst bs_loop.simps) (simp add: Let_def)
      from "1.IH"(1) [OF lt refl True \<open>sorted L\<close> _ hb(1) "1.prems"(4) up] hb
      show ?thesis unfolding eq by simp
    next
      case False
      have lo: "\<forall>i<?h + 1. L ! i \<le> key"
      proof (intro allI impI)
        fix i assume "i < ?h + 1"
        then have "L ! i \<le> L ! ?h" using \<open>sorted L\<close> hb(3) by (simp add: sorted_nth_mono)
        with False show "L ! i \<le> key" by simp
      qed
      have eq: "bs_loop L key bgn en = bs_loop L key (?h + 1) en"
        using lt False by (subst bs_loop.simps) (simp add: Let_def)
      from "1.IH"(2) [OF lt refl False \<open>sorted L\<close> "1.prems"(2) _ lo "1.prems"(5)] hb
      show ?thesis unfolding eq by simp
    qed
  qed
qed

lemma binary_search_le: "binary_search L key \<le> length L"
  using bs_loop_bounds [of 0 "length L" L key] by (simp add: binary_search_def)

lemma binary_search_partition:
  assumes "sorted L"
  shows "(\<forall>i<binary_search L key. L ! i \<le> key) \<and>
         (\<forall>i. binary_search L key \<le> i \<and> i < length L \<longrightarrow> key < L ! i)"
  using bs_loop_partition [of L "length L" 0 key] assms by (simp add: binary_search_def)

lemma sorted_insert_at:
  fixes L :: "int list"
  assumes "sorted L" "p \<le> length L"
    and "\<forall>i<p. L ! i \<le> k" and "\<forall>i. p \<le> i \<and> i < length L \<longrightarrow> k < L ! i"
  shows "sorted (take p L @ k # drop p L)"
proof -
  have a: "\<forall>x\<in>set (take p L). x \<le> k"
    using assms(2,3) by (auto simp: in_set_conv_nth)
  have b: "\<forall>y\<in>set (drop p L). k \<le> y"
  proof
    fix y assume "y \<in> set (drop p L)"
    then obtain j where "j < length L - p" "y = L ! (p + j)"
      by (auto simp: in_set_conv_nth)
    with assms(4) show "k \<le> y" by (simp add: less_imp_le)
  qed
  have c: "\<forall>x\<in>set (take p L). \<forall>y\<in>set (drop p L). x \<le> y"
    using a b by force
  show ?thesis
    using assms(1) a b c
    by (simp add: sorted_append sorted_wrt_take sorted_wrt_drop)
qed

text \<open>
  C7. On a leaf whose keys are non-decreasing, \<^verbatim>\<open>LeafPage.insert(r)\<close> returns success and
  puts \<open>r\<close> at the position \<open>p\<close> found by the binary search: every key before \<open>p\<close> is at
  most the new key, the key at \<open>p\<close> (and every later one) is greater, so \<open>p\<close> is the first
  position with a greater key and a duplicate lands after its equals; the keys of the
  result are non-decreasing again.
\<close>

theorem leaf_insert_sorted:
  assumes "sorted (leaf_key_list data)"
  shows "\<exists>p. p \<le> length data
          \<and> LeafPage_insert data r = (True, take p data @ r # drop p data)
          \<and> (\<forall>i<p. fst (data ! i) \<le> fst r)
          \<and> (\<forall>i. p \<le> i \<and> i < length data \<longrightarrow> fst r < fst (data ! i))
          \<and> sorted (leaf_key_list (snd (LeafPage_insert data r)))"
proof -
  let ?L = "leaf_key_list data"
  let ?p = "binary_search ?L (fst r)"
  have len: "length ?L = length data" by (simp add: leaf_key_list_def)
  have p: "?p \<le> length data" using binary_search_le [of ?L "fst r"] len by simp
  have part: "(\<forall>i<?p. ?L ! i \<le> fst r) \<and> (\<forall>i. ?p \<le> i \<and> i < length ?L \<longrightarrow> fst r < ?L ! i)"
    using binary_search_partition [OF assms] by blast
  have lo: "\<forall>i<?p. fst (data ! i) \<le> fst r"
    using part p by (auto simp: leaf_key_list_def)
  have hi: "\<forall>i. ?p \<le> i \<and> i < length data \<longrightarrow> fst r < fst (data ! i)"
    using part by (auto simp: leaf_key_list_def)
  have res: "LeafPage_insert data r = (True, take ?p data @ r # drop ?p data)"
    by (simp add: LeafPage_insert_def list_insert_def Let_def)
  have "sorted (take ?p ?L @ fst r # drop ?p ?L)"
    using sorted_insert_at [OF assms _ conjunct1 [OF part] conjunct2 [OF part]] p len by simp
  then have srt: "sorted (leaf_key_list (snd (LeafPage_insert data r)))"
    by (simp add: res leaf_key_list_def take_map drop_map)
  show ?thesis using p res lo hi srt by blast
qed

theorem leaf_insert_sorted_witness:
  "sorted (leaf_key_list leaf_example)
   \<and> (\<exists>p. p \<le> length leaf_example
          \<and> LeafPage_insert leaf_example (5, [9])
               = (True, take p leaf_example @ (5, [9]) # drop p leaf_example)
          \<and> (\<forall>i<p. fst (leaf_example ! i) \<le> fst (5::int, [9::int]))
          \<and> (\<forall>i. p \<le> i \<and> i < length leaf_example
                 \<longrightarrow> fst (5::int, [9::int]) < fst (leaf_example ! i))
          \<and> sorted (leaf_key_list (snd (LeafPage_insert leaf_example (5, [9])))))"
proof -
  have s: "sorted (leaf_key_list leaf_example)"
    by (simp add: leaf_key_list_def leaf_example_def)
  from s leaf_insert_sorted [OF s, of "(5, [9])"] show ?thesis by (rule conjI)
qed

lemma leaf_insert_example:
  "LeafPage_insert leaf_example (5, [9])
     = (True, [(3, [0]), (5, [1]), (5, [2]), (5, [9]), (8, [0])])"
  by code_simp

section \<open>The hash function\<close>

lemma mod_double:
  fixes k m :: int
  assumes "0 < m"
  shows "k mod (m * 2) = k mod m \<or> k mod (m * 2) = k mod m + m"
proof -
  have e: "k mod (m * 2) = m * (k div m mod 2) + k mod m"
    by (rule zmod_zmult2_eq) simp
  have "k div m mod 2 = 0 \<or> k div m mod 2 = 1" by presburger
  then show ?thesis using e by auto
qed

lemma lh_hash_pos:
  "0 < initial_buckets st \<Longrightarrow> lh_hash st k d = Some (k mod (2 ^ d * initial_buckets st))"
  by (simp add: lh_hash_def Let_def)

text \<open>
  C9. With a positive initial bucket count, \<open>h_d(k) = k mod (2^d * N0)\<close> for every integer
  key, negative ones included, and it lies in \<open>[0, 2^d * N0)\<close>; and \<open>h_{d+1}(k)\<close> is
  \<open>h_d(k)\<close> or \<open>h_d(k) + 2^d * N0\<close>, so a record drained from bucket \<open>old\<close> is rehashed to
  \<open>old\<close> or to the new bucket \<open>old + 2^d * N0\<close> and nowhere else.
\<close>

theorem hash_range_and_split_targets:
  assumes "0 < initial_buckets st"
  shows "\<exists>h h'. lh_hash st k d = Some h
           \<and> h = k mod (2 ^ d * initial_buckets st)
           \<and> 0 \<le> h \<and> h < 2 ^ d * initial_buckets st
           \<and> lh_hash st k (d + 1) = Some h'
           \<and> (h' = h \<or> h' = h + 2 ^ d * initial_buckets st)"
proof -
  let ?m = "2 ^ d * initial_buckets st"
  have m: "0 < ?m" using assms by simp
  have h: "lh_hash st k d = Some (k mod ?m)" using assms by (rule lh_hash_pos)
  have m2: "2 ^ (d + 1) * initial_buckets st = ?m * 2" by simp
  have h': "lh_hash st k (d + 1) = Some (k mod (?m * 2))"
    using lh_hash_pos [OF assms, of k "d + 1"] unfolding m2 .
  have r: "0 \<le> k mod ?m" "k mod ?m < ?m" using m by simp_all
  show ?thesis using h h' r mod_double [OF m, of k] by blast
qed

theorem hash_range_and_split_targets_witness:
  "0 < initial_buckets hash_example
   \<and> lh_hash hash_example (- 7) 1 = Some 1
   \<and> lh_hash hash_example (- 7) 2 = Some 9
   \<and> (\<exists>h h'. lh_hash hash_example (- 7) 1 = Some h
           \<and> h = (- 7) mod (2 ^ 1 * initial_buckets hash_example)
           \<and> 0 \<le> h \<and> h < 2 ^ 1 * initial_buckets hash_example
           \<and> lh_hash hash_example (- 7) (1 + 1) = Some h'
           \<and> (h' = h \<or> h' = h + 2 ^ 1 * initial_buckets hash_example))"
proof -
  have p: "0 < initial_buckets hash_example" by (simp add: hash_example_def)
  have a: "lh_hash hash_example (- 7) 1 = Some 1"
    by (simp add: lh_hash_def hash_example_def)
  have b: "lh_hash hash_example (- 7) 2 = Some 9"
    by (simp add: lh_hash_def hash_example_def)
  from hash_range_and_split_targets [OF p, of "- 7" 1] p a b show ?thesis by blast
qed

section \<open>Hash pages\<close>

lemma HashPage_insert_dup:
  "HashPage_search p (fst (seq_entry record)) \<noteq> []
   \<Longrightarrow> HashPage_insert sz S p record = Some (False, p)"
  by (subst HashPage_insert.simps) simp

lemma HashPage_insert_fit:
  "HashPage_search p (fst (seq_entry record)) = []
   \<Longrightarrow> used_space_records sz (hp_data p) + get_size sz record \<le> S
   \<Longrightarrow> HashPage_insert sz S p record
       = Some (True, HashPage (hp_data p @ [seq_entry record]) (hp_overflow p))"
  by (subst HashPage_insert.simps) simp

lemma HashPage_insert_over:
  "HashPage_search p (fst (seq_entry record)) = []
   \<Longrightarrow> \<not> used_space_records sz (hp_data p) + get_size sz record \<le> S
   \<Longrightarrow> HashPage_insert sz S p record
       = Option.bind
           (HashPage_insert sz S
              (case hp_overflow p of None \<Rightarrow> HashPage [] None | Some ov \<Rightarrow> ov) record)
           (\<lambda>res. Some (fst res, HashPage (hp_data p) (Some (snd res))))"
  by (subst HashPage_insert.simps) simp

lemma find_key_None: "find (\<lambda>r. fst r = k) data = None \<longleftrightarrow> k \<notin> fst ` set data"
  by (induction data) auto

lemma HashPage_search_empty_iff:
  "HashPage_search p k = [] \<longleftrightarrow> k \<notin> fst ` set (get_all_records p)"
proof (induction p)
  case (HashPage data ov)
  show ?case
  proof (cases "find (\<lambda>r. fst r = k) data")
    case (Some r)
    then have "k \<in> fst ` set data" using find_key_None [of k data] by simp
    with Some show ?thesis by auto
  next
    case None
    then have n: "k \<notin> fst ` set data" by (simp add: find_key_None)
    show ?thesis
    proof (cases ov)
      case None
      with \<open>find (\<lambda>r. fst r = k) data = None\<close> n show ?thesis by simp
    next
      case (Some q)
      with HashPage.IH [of q] have "HashPage_search q k = [] \<longleftrightarrow> k \<notin> fst ` set (get_all_records q)"
        by simp
      with Some \<open>find (\<lambda>r. fst r = k) data = None\<close> n show ?thesis by (auto simp: image_Un)
    qed
  qed
qed

lemma hashpage_not_own_overflow: "q \<noteq> HashPage data (Some q)"
proof
  assume "q = HashPage data (Some q)"
  then have "size q = size (HashPage data (Some q))" by simp
  then show False by simp
qed

text \<open>An empty page takes the record when it fits; when it does not, the call never returns.\<close>

lemma HashPage_insert_empty:
  "HashPage_insert sz S (HashPage [] None) record
     = (if get_size sz record \<le> S then Some (True, HashPage [seq_entry record] None)
        else None)"
proof (cases "get_size sz record \<le> S")
  case True
  then show ?thesis
    using HashPage_insert_fit [of "HashPage [] None" "record" sz S]
    by (simp add: used_space_records_def)
next
  case False
  let ?E = "HashPage_insert sz S (HashPage [] None) record"
  have e: "?E = Option.bind ?E (\<lambda>res. Some (fst res, HashPage [] (Some (snd res))))"
    using HashPage_insert_over [of "HashPage [] None" "record" sz S] False
    by (simp add: used_space_records_def)
  have "?E = None"
  proof (cases ?E)
    case None
    then show ?thesis .
  next
    case (Some res)
    with e have "Some res = Some (fst res, HashPage [] (Some (snd res)))" by simp
    then have "snd res = HashPage [] (Some (snd res))"
      by (metis option.inject snd_conv)
    then show ?thesis using hashpage_not_own_overflow by blast
  qed
  with False show ?thesis by simp
qed

text \<open>
  What a returning \<^verbatim>\<open>HashPage.insert\<close> does: a key of the chain is rejected and the
  chain stays as it is; any other record is added to the chain.
\<close>

lemma HashPage_insert_result:
  "HashPage_insert sz S p rc = Some (b, p')
   \<Longrightarrow> (b \<longleftrightarrow> HashPage_search p (fst (seq_entry rc)) = [])
       \<and> (\<not> b \<longrightarrow> p' = p)
       \<and> (b \<longrightarrow> mset (get_all_records p') = add_mset (seq_entry rc) (mset (get_all_records p)))"
proof (induction p arbitrary: b p')
  case (HashPage data ov)
  let ?p = "HashPage data ov"
  let ?k = "fst (seq_entry rc)"
  show ?case
  proof (cases "HashPage_search ?p ?k = []")
    case False
    with HashPage.prems HashPage_insert_dup [of ?p rc sz S] show ?thesis by simp
  next
    case nodup: True
    show ?thesis
    proof (cases "used_space_records sz (hp_data ?p) + get_size sz rc \<le> S")
      case True
      with HashPage.prems nodup HashPage_insert_fit [of ?p rc sz S]
      have "b" "p' = HashPage (data @ [seq_entry rc]) ov" by simp_all
      with nodup show ?thesis by simp
    next
      case False
      note ov = HashPage_insert_over [OF nodup False]
      show ?thesis
      proof (cases ov)
        case None
        with ov HashPage.prems
        have "Option.bind (HashPage_insert sz S (HashPage [] None) rc)
                (\<lambda>res. Some (fst res, HashPage data (Some (snd res)))) = Some (b, p')"
          by simp
        then have "get_size sz rc \<le> S" "b" "p' = HashPage data (Some (HashPage [seq_entry rc] None))"
          by (auto simp: HashPage_insert_empty split: if_splits)
        with nodup None show ?thesis by simp
      next
        case (Some q)
        with ov HashPage.prems
        have "Option.bind (HashPage_insert sz S q rc)
                (\<lambda>res. Some (fst res, HashPage data (Some (snd res)))) = Some (b, p')"
          by simp
        then obtain q' where q': "HashPage_insert sz S q rc = Some (b, q')"
          and p': "p' = HashPage data (Some q')"
          by (auto simp: bind_eq_Some_conv)
        have qs: "HashPage_search q ?k = []"
          using nodup Some by (simp split: option.splits)
        from HashPage.IH [of q b q'] Some q'
        have ih: "(b \<longleftrightarrow> HashPage_search q ?k = [])"
          "b \<longrightarrow> mset (get_all_records q') = add_mset (seq_entry rc) (mset (get_all_records q))"
          by simp_all
        with qs have "b" by simp
        with ih p' Some nodup show ?thesis by simp
      qed
    qed
  qed
qed

text \<open>A record that fits an empty page is always placed: the call returns.\<close>

lemma HashPage_insert_returns:
  "get_size sz rc \<le> S \<Longrightarrow> \<exists>res. HashPage_insert sz S p rc = Some res"
proof (induction p)
  case (HashPage data ov)
  let ?p = "HashPage data ov"
  show ?case
  proof (cases "HashPage_search ?p (fst (seq_entry rc)) = []")
    case False
    then have "HashPage_insert sz S ?p rc = Some (False, ?p)" by (rule HashPage_insert_dup)
    then show ?thesis by blast
  next
    case nodup: True
    show ?thesis
    proof (cases "used_space_records sz (hp_data ?p) + get_size sz rc \<le> S")
      case True
      with nodup have "HashPage_insert sz S ?p rc
          = Some (True, HashPage (hp_data ?p @ [seq_entry rc]) (hp_overflow ?p))"
        by (rule HashPage_insert_fit)
      then show ?thesis by blast
    next
      case False
      note ov = HashPage_insert_over [OF nodup False]
      show ?thesis
      proof (cases ov)
        case None
        with ov HashPage.prems
        have "HashPage_insert sz S ?p rc
                = Some (True, HashPage data (Some (HashPage [seq_entry rc] None)))"
          by (simp add: HashPage_insert_empty)
        then show ?thesis by blast
      next
        case (Some q)
        with HashPage.IH [of q] HashPage.prems obtain res where
          "HashPage_insert sz S q rc = Some res" by auto
        with ov Some
        have "HashPage_insert sz S ?p rc = Some (fst res, HashPage data (Some (snd res)))"
          by simp
        then show ?thesis by blast
      qed
    qed
  qed
qed

lemma HashPage_insert_keys:
  assumes "HashPage_insert sz S p rc = Some (b, p')"
  shows "set (get_all_records p') \<subseteq> insert (seq_entry rc) (set (get_all_records p))"
    and "distinct (map fst (get_all_records p)) \<Longrightarrow> distinct (map fst (get_all_records p'))"
proof -
  note r = HashPage_insert_result [OF assms]
  show "set (get_all_records p') \<subseteq> insert (seq_entry rc) (set (get_all_records p))"
  proof (cases b)
    case True
    with r have "mset (get_all_records p') = add_mset (seq_entry rc) (mset (get_all_records p))"
      by simp
    then have "set (get_all_records p') = insert (seq_entry rc) (set (get_all_records p))"
      by (metis set_mset_add_mset_insert set_mset_mset)
    then show ?thesis by simp
  next
    case False
    with r show ?thesis by auto
  qed
  show "distinct (map fst (get_all_records p'))" if d: "distinct (map fst (get_all_records p))"
  proof (cases b)
    case True
    with r have m: "mset (get_all_records p') = mset (get_all_records p @ [seq_entry rc])"
      and n: "fst (seq_entry rc) \<notin> fst ` set (get_all_records p)"
      by (simp_all add: HashPage_search_empty_iff)
    from m have "mset (map fst (get_all_records p')) = mset (map fst (get_all_records p @ [seq_entry rc]))"
      by (metis mset_map)
    then have "distinct (map fst (get_all_records p'))
                 \<longleftrightarrow> distinct (map fst (get_all_records p @ [seq_entry rc]))"
      by (rule mset_eq_imp_distinct_iff)
    with d n show ?thesis by simp
  next
    case False
    with r d show ?thesis by simp
  qed
qed

lemma pop_first_set: "set (snd (pop_first data k)) \<subseteq> set data"
proof (induction data)
  case Nil
  then show ?case by simp
next
  case (Cons r rs)
  obtain b rs' where p: "pop_first rs k = (b, rs')" by (cases "pop_first rs k")
  with Cons show ?case by (cases "fst r = k") auto
qed

lemma pop_first_distinct:
  "distinct (map fst data) \<Longrightarrow> distinct (map fst (snd (pop_first data k)))"
proof (induction data)
  case Nil
  then show ?case by simp
next
  case (Cons r rs)
  show ?case
  proof (cases "fst r = k")
    case True
    with Cons.prems show ?thesis by simp
  next
    case False
    obtain b rs' where p: "pop_first rs k = (b, rs')" by (cases "pop_first rs k")
    have "set rs' \<subseteq> set rs" using pop_first_set [of rs k] p by simp
    then have "fst ` set rs' \<subseteq> fst ` set rs" by (rule image_mono)
    moreover have "fst r \<notin> fst ` set rs" using Cons.prems by simp
    ultimately have n: "fst r \<notin> fst ` set rs'" by blast
    have "distinct (map fst rs')" using Cons.IH Cons.prems p by simp
    with n False p show ?thesis by simp
  qed
qed

lemma pop_first_False: "fst (pop_first data k) = False \<Longrightarrow> snd (pop_first data k) = data"
proof (induction data)
  case Nil
  then show ?case by simp
next
  case (Cons r rs)
  obtain b rs' where p: "pop_first rs k = (b, rs')" by (cases "pop_first rs k")
  with Cons show ?case by (cases "fst r = k") auto
qed

lemma HashPage_remove_set:
  "set (get_all_records (snd (HashPage_remove p k))) \<subseteq> set (get_all_records p)"
proof (induction p)
  case (HashPage data ov)
  obtain b data' where pf: "pop_first data k = (b, data')" by (cases "pop_first data k")
  have sub: "set data' \<subseteq> set data" using pop_first_set [of data k] pf by simp
  show ?case
  proof (cases b)
    case True
    with pf sub show ?thesis by auto
  next
    case False
    show ?thesis
    proof (cases ov)
      case None
      with pf False show ?thesis by simp
    next
      case (Some q)
      obtain c q' where rq: "HashPage_remove q k = (c, q')" by (cases "HashPage_remove q k")
      with HashPage.IH [of q] Some have "set (get_all_records q') \<subseteq> set (get_all_records q)"
        by simp
      with pf False Some rq show ?thesis by auto
    qed
  qed
qed

lemma HashPage_remove_distinct:
  "distinct (map fst (get_all_records p))
   \<Longrightarrow> distinct (map fst (get_all_records (snd (HashPage_remove p k))))"
proof (induction p)
  case (HashPage data ov)
  obtain b data' where pf: "pop_first data k = (b, data')" by (cases "pop_first data k")
  have sub: "set data' \<subseteq> set data" using pop_first_set [of data k] pf by simp
  have dd: "distinct (map fst data')"
    using pop_first_distinct [of data k] pf HashPage.prems by simp
  show ?case
  proof (cases b)
    case True
    with pf sub dd HashPage.prems show ?thesis by (cases ov) auto
  next
    case False
    show ?thesis
    proof (cases ov)
      case None
      with pf False HashPage.prems show ?thesis by simp
    next
      case (Some q)
      obtain c q' where rq: "HashPage_remove q k = (c, q')" by (cases "HashPage_remove q k")
      have "distinct (map fst (get_all_records q'))"
        using HashPage.IH [of q] Some HashPage.prems rq by simp
      moreover have "set (get_all_records q') \<subseteq> set (get_all_records q)"
        using HashPage_remove_set [of q k] rq by simp
      ultimately show ?thesis using pf False Some rq HashPage.prems by auto
    qed
  qed
qed

section \<open>Duplicate keys in the hash index\<close>

text \<open>
  C6. When the key of the record is already in the chain of the bucket it is addressed to,
  \<^verbatim>\<open>LinearHashIndex.insert\<close> returns false and the index is exactly what it was: no record
  added or changed, no counter moved, no split.
\<close>

theorem duplicate_insert_rejected:
  assumes "get_bucket_index st (fst (seq_entry rc)) = Some bucket_idx"
    and "py_index (buckets st) bucket_idx = Some i"
    and "fst (seq_entry rc) \<in> fst ` set (get_all_records (buckets st ! i))"
  shows "LinearHashIndex_insert sz reached st rc = Some (False, st)"
proof -
  have "HashPage_search (buckets st ! i) (fst (seq_entry rc)) \<noteq> []"
    using assms(3) by (simp add: HashPage_search_empty_iff)
  then have "HashPage_insert sz (lh_size st) (buckets st ! i) rc = Some (False, buckets st ! i)"
    by (rule HashPage_insert_dup)
  then show ?thesis
    using assms(1,2) by (simp add: LinearHashIndex_insert_def)
qed

lemma init_512_4:
  "LinearHashIndex_init 512 4 =
     \<lparr>lh_size = 512, level = 0, next_split = 0, initial_buckets = 4, num_buckets = 4,
      buckets = [HashPage [] None, HashPage [] None, HashPage [] None, HashPage [] None],
      num_records = 0, num_splits = 0\<rparr>"
  by (simp add: LinearHashIndex_init_def numeral_eq_Suc)

lemma hash_example_first_insert:
  "LinearHashIndex_insert cpython_sizing example_reached (LinearHashIndex_init 512 4)
     (PyList (7, [1])) = Some (True, hash_example)"
  by (simp add: LinearHashIndex_insert_def init_512_4 get_bucket_index_def
      lh_hash_def py_index_def Let_def HashPage_insert_fit
      used_space_records_def cpython_sizing_def entry_items_def digits30.simps
      need_split_def example_reached_def exact_load_test_def hash_example_def)

theorem duplicate_insert_rejected_witness:
  "LinearHashIndex_insert cpython_sizing example_reached (LinearHashIndex_init 512 4)
     (PyList (7, [1])) = Some (True, hash_example)
   \<and> get_bucket_index hash_example (fst (seq_entry (PyList (7, [2])))) = Some 3
   \<and> py_index (buckets hash_example) 3 = Some 3
   \<and> fst (seq_entry (PyList (7, [2]))) \<in> fst ` set (get_all_records (buckets hash_example ! 3))
   \<and> LinearHashIndex_insert cpython_sizing example_reached hash_example (PyList (7, [2]))
       = Some (False, hash_example)
   \<and> LinearHashIndex_search hash_example 7 = Some [(7, [1])]
   \<and> num_records hash_example = 1"
proof -
  have a: "get_bucket_index hash_example (fst (seq_entry (PyList (7, [2])))) = Some 3"
    by (simp add: get_bucket_index_def lh_hash_def hash_example_def)
  have b: "py_index (buckets hash_example) 3 = Some 3"
    by (simp add: py_index_def hash_example_def)
  have c: "fst (seq_entry (PyList (7, [2])))
             \<in> fst ` set (get_all_records (buckets hash_example ! 3))"
    by (simp add: hash_example_def)
  have d: "LinearHashIndex_search hash_example 7 = Some [(7, [1])]"
    by (simp add: LinearHashIndex_search_def get_bucket_index_def lh_hash_def py_index_def
        hash_example_def)
  have e: "num_records hash_example = 1" by (simp add: hash_example_def)
  from hash_example_first_insert a b c
    duplicate_insert_rejected [OF a b c, of cpython_sizing example_reached] d e
  show ?thesis by blast
qed

section \<open>Addressing in the linear hashing index\<close>

lemma get_bucket_index_address:
  assumes "0 < initial_buckets st"
  shows "get_bucket_index st k
           = Some (address (initial_buckets st) (level st) (next_split st) k)"
proof -
  have a: "lh_hash st k (level st) = Some (k mod (2 ^ level st * initial_buckets st))"
    using assms by (rule lh_hash_pos)
  have "2 ^ (level st + 1) * initial_buckets st = 2 ^ level st * initial_buckets st * 2"
    by simp
  then have b: "lh_hash st k (level st + 1)
                  = Some (k mod (2 ^ level st * initial_buckets st * 2))"
    using lh_hash_pos [OF assms, of k "level st + 1"] by metis
  show ?thesis unfolding get_bucket_index_def a b by (simp add: address_def)
qed

lemma address_at_split_pointer:
  assumes "0 < N0" "int sp < 2 ^ d * N0" "address N0 d sp k = int sp"
  shows "k mod (2 ^ d * N0) = int sp"
proof (rule ccontr)
  assume n: "k mod (2 ^ d * N0) \<noteq> int sp"
  have m: "0 < 2 ^ d * N0" using assms(1) by simp
  from n assms(3) have lt: "k mod (2 ^ d * N0) < int sp" and e: "k mod (2 ^ d * N0 * 2) = int sp"
    by (auto simp: address_def split: if_splits)
  have "0 \<le> k mod (2 ^ d * N0)" using m by simp
  with mod_double [OF m, of k] e lt assms(2) show False by auto
qed

lemma address_other_bucket:
  assumes "0 < N0" "int sp < 2 ^ d * N0" "k mod (2 ^ d * N0) \<noteq> int sp"
    and that: "int (sp + 1) \<ge> 2 ^ d * N0 \<and> d' = d + 1 \<and> sp' = 0
        \<or> \<not> int (sp + 1) \<ge> 2 ^ d * N0 \<and> d' = d \<and> sp' = sp + 1"
  shows "address N0 d' sp' k = address N0 d sp k"
proof -
  have m: "0 < 2 ^ d * N0" using assms(1) by simp
  have r: "0 \<le> k mod (2 ^ d * N0)" "k mod (2 ^ d * N0) < 2 ^ d * N0" using m by simp_all
  have r2: "0 \<le> k mod (2 ^ d * N0 * 2)" using m by simp
  from that show ?thesis
  proof (elim disjE conjE)
    assume w: "int (sp + 1) \<ge> 2 ^ d * N0" and d': "d' = d + 1" and s': "sp' = 0"
    from w r assms(3) have "k mod (2 ^ d * N0) < int sp" by simp
    then have "address N0 d sp k = k mod (2 ^ d * N0 * 2)" by (simp add: address_def)
    moreover have "address N0 (d + 1) 0 k = k mod (2 ^ d * N0 * 2)"
      using r2 by (simp add: address_def mult.commute mult.left_commute)
    ultimately show ?thesis using d' s' by simp
  next
    assume "\<not> int (sp + 1) \<ge> 2 ^ d * N0" and d': "d' = d" and s': "sp' = sp + 1"
    have "k mod (2 ^ d * N0) < int (sp + 1) \<longleftrightarrow> k mod (2 ^ d * N0) < int sp"
      using assms(3) by auto
    then show ?thesis unfolding d' s' address_def by simp
  qed
qed

lemma address_split_bucket:
  assumes "0 < N0" "int sp < 2 ^ d * N0" "k mod (2 ^ d * N0) = int sp"
    and that: "int (sp + 1) \<ge> 2 ^ d * N0 \<and> d' = d + 1 \<and> sp' = 0
        \<or> \<not> int (sp + 1) \<ge> 2 ^ d * N0 \<and> d' = d \<and> sp' = sp + 1"
  shows "address N0 d' sp' k = k mod (2 ^ d * N0 * 2)"
proof -
  have m: "0 < 2 ^ d * N0" using assms(1) by simp
  have r2: "0 \<le> k mod (2 ^ d * N0 * 2)" using m by simp
  from that show ?thesis
  proof (elim disjE conjE)
    assume d': "d' = d + 1" and s': "sp' = 0"
    show ?thesis unfolding d' s' using r2
      by (simp add: address_def mult.commute mult.left_commute)
  next
    assume d': "d' = d" and s': "sp' = sp + 1"
    show ?thesis unfolding d' s' using assms(3) by (simp add: address_def)
  qed
qed

lemma redistribute_sets:
  "redistribute sz st old rs (ob0, nb0) = Some (ob, nb)
   \<Longrightarrow> set (get_all_records ob)
         \<subseteq> set (get_all_records ob0)
            \<union> {r \<in> set rs. lh_hash st (fst r) (level st + 1) = Some (int old)}
       \<and> set (get_all_records nb)
         \<subseteq> set (get_all_records nb0)
            \<union> {r \<in> set rs. lh_hash st (fst r) (level st + 1) \<noteq> Some (int old)}
       \<and> (distinct (map fst (get_all_records ob0)) \<longrightarrow> distinct (map fst (get_all_records ob)))
       \<and> (distinct (map fst (get_all_records nb0)) \<longrightarrow> distinct (map fst (get_all_records nb)))"
proof (induction rs arbitrary: ob0 nb0)
  case Nil
  then show ?case by simp
next
  case (Cons r rs)
  let ?to_old = "\<lambda>x. lh_hash st (fst x) (level st + 1) = Some (int old)"
  from Cons.prems obtain idx where idx: "lh_hash st (fst r) (level st + 1) = Some idx"
    by (cases "lh_hash st (fst r) (level st + 1)") simp_all
  show ?case
  proof (cases "idx = int old")
    case True
    with Cons.prems idx obtain res where
      ins: "HashPage_insert sz (lh_size st) ob0 (PyTuple r) = Some (fst res, snd res)"
      and rest: "redistribute sz st old rs (snd res, nb0) = Some (ob, nb)"
      by (cases "HashPage_insert sz (lh_size st) ob0 (PyTuple r)") simp_all
    note k = HashPage_insert_keys [OF ins]
    note ih = Cons.IH [OF rest]
    have r: "?to_old r" using idx True by simp
    have a: "set (get_all_records ob)
               \<subseteq> set (get_all_records ob0) \<union> {x \<in> set (r # rs). ?to_old x}"
    proof
      fix x assume "x \<in> set (get_all_records ob)"
      with ih have "x \<in> set (get_all_records (snd res)) \<or> x \<in> set rs \<and> ?to_old x" by blast
      with k(1) r show "x \<in> set (get_all_records ob0) \<union> {x \<in> set (r # rs). ?to_old x}"
        by auto
    qed
    have b: "set (get_all_records nb)
               \<subseteq> set (get_all_records nb0) \<union> {x \<in> set (r # rs). \<not> ?to_old x}"
    proof
      fix x assume "x \<in> set (get_all_records nb)"
      with ih have "x \<in> set (get_all_records nb0) \<or> x \<in> set rs \<and> \<not> ?to_old x" by blast
      then show "x \<in> set (get_all_records nb0) \<union> {x \<in> set (r # rs). \<not> ?to_old x}"
        by auto
    qed
    from a b ih k(2) show ?thesis by simp
  next
    case False
    with Cons.prems idx obtain res where
      ins: "HashPage_insert sz (lh_size st) nb0 (PyTuple r) = Some (fst res, snd res)"
      and rest: "redistribute sz st old rs (ob0, snd res) = Some (ob, nb)"
      by (cases "HashPage_insert sz (lh_size st) nb0 (PyTuple r)") simp_all
    note k = HashPage_insert_keys [OF ins]
    note ih = Cons.IH [OF rest]
    have r: "\<not> ?to_old r" using idx False by simp
    have a: "set (get_all_records ob)
               \<subseteq> set (get_all_records ob0) \<union> {x \<in> set (r # rs). ?to_old x}"
    proof
      fix x assume "x \<in> set (get_all_records ob)"
      with ih have "x \<in> set (get_all_records ob0) \<or> x \<in> set rs \<and> ?to_old x" by blast
      then show "x \<in> set (get_all_records ob0) \<union> {x \<in> set (r # rs). ?to_old x}"
        by auto
    qed
    have b: "set (get_all_records nb)
               \<subseteq> set (get_all_records nb0) \<union> {x \<in> set (r # rs). \<not> ?to_old x}"
    proof
      fix x assume "x \<in> set (get_all_records nb)"
      with ih have "x \<in> set (get_all_records (snd res)) \<or> x \<in> set rs \<and> \<not> ?to_old x"
        by blast
      with k(1) r show "x \<in> set (get_all_records nb0) \<union> {x \<in> set (r # rs). \<not> ?to_old x}"
        by auto
    qed
    from a b ih k(2) show ?thesis by simp
  qed
qed

lemma get_bucket_index_cong:
  "level st' = level st \<Longrightarrow> next_split st' = next_split st
   \<Longrightarrow> initial_buckets st' = initial_buckets st
   \<Longrightarrow> get_bucket_index st' k = get_bucket_index st k"
  by (simp add: get_bucket_index_def lh_hash_def)

lemma invar_update_bucket:
  assumes "lh_invar st" "i < length (buckets st)"
    and "\<forall>r\<in>set (get_all_records b'). get_bucket_index st (fst r) = Some (int i)"
    and "distinct (map fst (get_all_records b'))"
    and "level st' = level st" "next_split st' = next_split st"
    and "initial_buckets st' = initial_buckets st"
    and "buckets st' = (buckets st)[i := b']"
  shows "lh_invar st'"
proof -
  have g: "get_bucket_index st' k = get_bucket_index st k" for k
    using assms(5-7) by (rule get_bucket_index_cong)
  have "lh_shape st'" using assms(1,5-8) by (simp add: lh_invar_def lh_shape_def)
  moreover have "addressing_ok st'"
    unfolding addressing_ok_def
  proof (intro allI impI ballI)
    fix j r assume j: "j < length (buckets st')" and r: "r \<in> set (get_all_records (buckets st' ! j))"
    show "get_bucket_index st' (fst r) = Some (int j)"
    proof (cases "j = i")
      case True
      with r assms(2,3,8) show ?thesis by (simp add: g)
    next
      case False
      with j r assms(1,8) show ?thesis by (simp add: g lh_invar_def addressing_ok_def)
    qed
  qed
  moreover have "chains_distinct st'"
    unfolding chains_distinct_def
  proof (intro allI impI)
    fix j assume j: "j < length (buckets st')"
    show "distinct (map fst (get_all_records (buckets st' ! j)))"
    proof (cases "j = i")
      case True
      with assms(2,4,8) show ?thesis by simp
    next
      case False
      with j assms(1,8) show ?thesis by (simp add: lh_invar_def chains_distinct_def)
    qed
  qed
  ultimately show ?thesis by (simp add: lh_invar_def)
qed

lemma split_preserves_invar:
  assumes inv: "lh_invar st" and sp: "LinearHashIndex_split sz st = Some st'"
  shows "lh_invar st'"
proof -
  let ?N = "initial_buckets st"
  let ?d = "level st"
  let ?s = "next_split st"
  let ?M = "2 ^ ?d * ?N"
  let ?bs = "buckets st"
  let ?rs = "get_all_records (?bs ! ?s)"
  let ?E = "HashPage [] None"
  let ?done = "int (?s + 1) \<ge> ?M"
  let ?d' = "if ?done then ?d + 1 else ?d"
  let ?s' = "if ?done then 0 else ?s + 1"
  from inv have N: "0 < ?N" and len: "int (length ?bs) = ?M + int ?s" and sM: "int ?s < ?M"
    and addr: "addressing_ok st" and dist: "chains_distinct st"
    by (simp_all add: lh_invar_def lh_shape_def)
  have M: "0 < ?M" using N by simp
  have slen: "?s < length ?bs" using len M by linarith
  from sp slen obtain ob nb where
    red: "redistribute sz st ?s ?rs (?E, ?E) = Some (ob, nb)"
    and st': "st' = st\<lparr>num_splits := num_splits st + 1,
                        buckets := ?bs[?s := ob] @ [nb],
                        num_buckets := num_buckets st + 1,
                        next_split := ?s', level := ?d'\<rparr>"
    by (auto simp: LinearHashIndex_split_def Let_def split: option.splits)
  have f: "level st' = ?d'" "next_split st' = ?s'" "initial_buckets st' = ?N"
    "buckets st' = ?bs[?s := ob] @ [nb]"
    unfolding st' by simp_all
  have which: "?done \<and> ?d' = ?d + 1 \<and> ?s' = 0 \<or> \<not> ?done \<and> ?d' = ?d \<and> ?s' = ?s + 1"
    by simp
  note rd = redistribute_sets [OF red]
  have h1: "lh_hash st k (?d + 1) = Some (k mod (?M * 2))" for k
  proof -
    have "2 ^ (?d + 1) * ?N = ?M * 2" by simp
    then show ?thesis using lh_hash_pos [OF N, of k "?d + 1"] by metis
  qed
  have old_keys: "k mod ?M = int ?s" if "r \<in> set ?rs" "k = fst r" for r k
  proof -
    from addr slen that have "get_bucket_index st k = Some (int ?s)"
      by (simp add: addressing_ok_def)
    then have "address ?N ?d ?s k = int ?s"
      using get_bucket_index_address [OF N, of k] by simp
    with N sM show ?thesis by (rule address_at_split_pointer)
  qed
  have gbi': "get_bucket_index st' k = Some (address ?N ?d' ?s' k)" for k
    using get_bucket_index_address [of st' k] N f by simp
  have shape: "lh_shape st'"
  proof (cases ?done)
    case True
    with sM have e: "int ?s + 1 = ?M" by simp
    have "int (length (buckets st')) = ?M + int ?s + 1" using f len by simp
    also have "\<dots> = 2 ^ (?d + 1) * ?N + int 0" using e by simp
    finally show ?thesis using True N f by (simp add: lh_shape_def)
  next
    case False
    have "int (length (buckets st')) = ?M + int (?s + 1)" using f len by simp
    with False N f show ?thesis by (simp add: lh_shape_def)
  qed
  have addr': "addressing_ok st'"
    unfolding addressing_ok_def
  proof (intro allI impI ballI)
    fix i r
    assume i: "i < length (buckets st')" and r: "r \<in> set (get_all_records (buckets st' ! i))"
    let ?k = "fst r"
    consider (old) "i = ?s" | (new) "i = length ?bs" | (other) "i < length ?bs" "i \<noteq> ?s"
      using i f by (cases "i = length ?bs") auto
    then show "get_bucket_index st' ?k = Some (int i)"
    proof cases
      case old
      with r f slen have "r \<in> set (get_all_records ob)" by (simp add: nth_append)
      with rd have rr: "r \<in> set ?rs" and h: "lh_hash st ?k (?d + 1) = Some (int ?s)" by auto
      from old_keys [OF rr refl] have km: "?k mod ?M = int ?s" .
      from address_split_bucket [OF N sM km which] h h1 [of ?k]
      show ?thesis using old by (simp add: gbi')
    next
      case new
      with r f have "r \<in> set (get_all_records nb)" by (simp add: nth_append)
      with rd have rr: "r \<in> set ?rs" and h: "lh_hash st ?k (?d + 1) \<noteq> Some (int ?s)" by auto
      from old_keys [OF rr refl] have km: "?k mod ?M = int ?s" .
      from h h1 [of ?k] have "?k mod (?M * 2) \<noteq> int ?s" by simp
      with mod_double [OF M, of ?k] km have "?k mod (?M * 2) = int ?s + ?M" by auto
      with address_split_bucket [OF N sM km which] len new
      show ?thesis by (simp add: gbi')
    next
      case other
      with r f have rr: "r \<in> set (get_all_records (?bs ! i))" by (simp add: nth_append)
      with addr other have "get_bucket_index st ?k = Some (int i)" by (simp add: addressing_ok_def)
      then have a: "address ?N ?d ?s ?k = int i"
        using get_bucket_index_address [OF N, of ?k] by simp
      have km: "?k mod ?M \<noteq> int ?s"
      proof
        assume "?k mod ?M = int ?s"
        then have "address ?N ?d ?s ?k = int ?s" by (simp add: address_def)
        with a other show False by simp
      qed
      from address_other_bucket [OF N sM km which] a show ?thesis by (simp add: gbi')
    qed
  qed
  have dist': "chains_distinct st'"
    unfolding chains_distinct_def
  proof (intro allI impI)
    fix i assume i: "i < length (buckets st')"
    consider (old) "i = ?s" | (new) "i = length ?bs" | (other) "i < length ?bs" "i \<noteq> ?s"
      using i f by (cases "i = length ?bs") auto
    then show "distinct (map fst (get_all_records (buckets st' ! i)))"
    proof cases
      case old
      with f slen rd show ?thesis by (simp add: nth_append)
    next
      case new
      with f rd show ?thesis by (simp add: nth_append)
    next
      case other
      with f dist show ?thesis by (simp add: nth_append chains_distinct_def)
    qed
  qed
  from shape addr' dist' show ?thesis by (simp add: lh_invar_def)
qed

lemma py_index_nonneg:
  "py_index xs idx = Some i \<Longrightarrow> 0 \<le> idx \<Longrightarrow> i < length xs \<and> int i = idx"
  by (auto simp: py_index_def split: if_splits)

lemma address_nonneg: "0 < N0 \<Longrightarrow> 0 \<le> address N0 d sp k"
  by (simp add: address_def)

lemma insert_preserves_invar:
  assumes inv: "lh_invar st" and ins: "LinearHashIndex_insert sz reached st rc = Some (b, st')"
  shows "lh_invar st'"
proof -
  let ?k = "fst (seq_entry rc)"
  from inv have N: "0 < initial_buckets st" by (simp add: lh_invar_def lh_shape_def)
  have gbi: "get_bucket_index st ?k
               = Some (address (initial_buckets st) (level st) (next_split st) ?k)"
    using N by (rule get_bucket_index_address)
  let ?idx = "address (initial_buckets st) (level st) (next_split st) ?k"
  from ins gbi obtain i where pi: "py_index (buckets st) ?idx = Some i"
    by (auto simp: LinearHashIndex_insert_def split: option.splits)
  from py_index_nonneg [OF pi address_nonneg [OF N]]
  have i: "i < length (buckets st)" "int i = ?idx" by simp_all
  from ins gbi pi obtain ok bk where
    hp: "HashPage_insert sz (lh_size st) (buckets st ! i) rc = Some (ok, bk)"
    by (auto simp: LinearHashIndex_insert_def split: option.splits)
  note res = HashPage_insert_result [OF hp]
  note keys = HashPage_insert_keys [OF hp]
  show ?thesis
  proof (cases ok)
    case False
    with res have "bk = buckets st ! i" by simp
    with ins gbi pi hp False have "st' = st"
      by (simp add: LinearHashIndex_insert_def)
    with inv show ?thesis by simp
  next
    case True
    let ?st1 = "st\<lparr>buckets := (buckets st)[i := bk], num_records := num_records st + 1\<rparr>"
    have a: "\<forall>r\<in>set (get_all_records bk). get_bucket_index st (fst r) = Some (int i)"
    proof
      fix r assume "r \<in> set (get_all_records bk)"
      with keys(1) have "r = seq_entry rc \<or> r \<in> set (get_all_records (buckets st ! i))"
        by auto
      then show "get_bucket_index st (fst r) = Some (int i)"
      proof
        assume "r = seq_entry rc"
        with gbi i show ?thesis by simp
      next
        assume "r \<in> set (get_all_records (buckets st ! i))"
        with inv i show ?thesis by (simp add: lh_invar_def addressing_ok_def)
      qed
    qed
    have d: "distinct (map fst (get_all_records bk))"
      using keys(2) inv i by (simp add: lh_invar_def chains_distinct_def)
    have inv1: "lh_invar ?st1"
      by (rule invar_update_bucket [OF inv i(1) a d]) simp_all
    from ins gbi pi hp True
    have "(\<exists>t. need_split sz reached ?st1 = Some t
             \<and> (if t then LinearHashIndex_split sz ?st1 = Some st' else st' = ?st1))"
      by (auto simp: LinearHashIndex_insert_def Let_def split: option.splits bool.splits)
    then show ?thesis
      using inv1 split_preserves_invar [of ?st1 sz st'] by (auto split: if_splits)
  qed
qed

lemma remove_preserves_invar:
  assumes inv: "lh_invar st" and rm: "LinearHashIndex_remove st k = Some (b, st')"
  shows "lh_invar st'"
proof -
  from inv have N: "0 < initial_buckets st" by (simp add: lh_invar_def lh_shape_def)
  let ?idx = "address (initial_buckets st) (level st) (next_split st) k"
  have gbi: "get_bucket_index st k = Some ?idx" using N by (rule get_bucket_index_address)
  from rm gbi obtain i where pi: "py_index (buckets st) ?idx = Some i"
    by (auto simp: LinearHashIndex_remove_def split: option.splits)
  from py_index_nonneg [OF pi address_nonneg [OF N]]
  have i: "i < length (buckets st)" by simp
  let ?bk = "snd (HashPage_remove (buckets st ! i) k)"
  have a: "\<forall>r\<in>set (get_all_records ?bk). get_bucket_index st (fst r) = Some (int i)"
    using HashPage_remove_set [of "buckets st ! i" k] inv i
    by (auto simp: lh_invar_def addressing_ok_def)
  have d: "distinct (map fst (get_all_records ?bk))"
    using HashPage_remove_distinct [of "buckets st ! i" k] inv i
    by (simp add: lh_invar_def chains_distinct_def)
  from rm gbi pi have f: "level st' = level st" "next_split st' = next_split st"
    "initial_buckets st' = initial_buckets st" "buckets st' = (buckets st)[i := ?bk]"
    by (auto simp: LinearHashIndex_remove_def split: prod.splits bool.splits)
  show ?thesis by (rule invar_update_bucket [OF inv i a d f])
qed

lemma init_invar: "0 < N0 \<Longrightarrow> lh_invar (LinearHashIndex_init S N0)"
  by (simp add: lh_invar_def lh_shape_def addressing_ok_def chains_distinct_def
      LinearHashIndex_init_def)

lemma step_preserves_invar:
  "lh_invar st \<Longrightarrow> lh_step sz reached st x = Some st' \<Longrightarrow> lh_invar st'"
proof (cases x)
  case (Insert rc)
  assume "lh_invar st" "lh_step sz reached st x = Some st'"
  with Insert show ?thesis using insert_preserves_invar [of st sz reached rc _ st'] by auto
next
  case (Remove k)
  assume "lh_invar st" "lh_step sz reached st x = Some st'"
  with Remove show ?thesis using remove_preserves_invar [of st k _ st'] by auto
next
  case (Search k)
  assume "lh_invar st" "lh_step sz reached st x = Some st'"
  with Search show ?thesis by auto
qed

lemma run_preserves_invar:
  "lh_invar st \<Longrightarrow> lh_run sz reached st xs = Some st' \<Longrightarrow> lh_invar st'"
proof (induction xs arbitrary: st)
  case Nil
  then show ?case by simp
next
  case (Cons x xs)
  from Cons.prems(2) obtain st1 where s: "lh_step sz reached st x = Some st1"
    and r: "lh_run sz reached st1 xs = Some st'"
    by (auto split: option.splits)
  from step_preserves_invar [OF Cons.prems(1) s] have "lh_invar st1" .
  from Cons.IH [OF this r] show ?case .
qed

lemma HashPage_search_distinct:
  "distinct (map fst (get_all_records p)) \<Longrightarrow> r \<in> set (get_all_records p)
   \<Longrightarrow> HashPage_search p (fst r) = [r]"
proof (induction p)
  case (HashPage data ov)
  show ?case
  proof (cases "r \<in> set data")
    case True
    with HashPage.prems(1) have "find (\<lambda>x. fst x = fst r) data = Some r"
    proof (induction data)
      case Nil
      then show ?case by simp
    next
      case (Cons a data)
      then show ?case by (cases "a = r") (auto simp: rev_image_eqI)
    qed
    then show ?thesis by simp
  next
    case False
    with HashPage.prems obtain q where q: "ov = Some q" "r \<in> set (get_all_records q)"
      by (cases ov) auto
    with HashPage.prems(1) have "fst r \<notin> fst ` set data" by auto
    then have "find (\<lambda>x. fst x = fst r) data = None" by (simp add: find_key_None)
    moreover have "HashPage_search q (fst r) = [r]"
      using HashPage.IH [of q] q HashPage.prems(1) by simp
    ultimately show ?thesis using q by simp
  qed
qed

section \<open>Stored keys stay addressable\<close>

text \<open>
  C4. After any run of inserts, removes and searches on a new index with a positive
  initial bucket count, splits included, every record stored in the chain of bucket \<open>i\<close>
  has \<open>i\<close> as the bucket index of its key under the current level and split pointer, and
  a search for its key returns it.
\<close>

theorem stored_keys_stay_addressable:
  assumes "0 < N0" and "lh_run sz reached (LinearHashIndex_init S N0) ops = Some st"
  shows "\<forall>i<length (buckets st). \<forall>r\<in>set (get_all_records (buckets st ! i)).
           get_bucket_index st (fst r) = Some (int i)
           \<and> LinearHashIndex_search st (fst r) = Some [r]"
proof (intro allI impI ballI)
  fix i r
  assume i: "i < length (buckets st)" and r: "r \<in> set (get_all_records (buckets st ! i))"
  have inv: "lh_invar st"
    using run_preserves_invar [OF init_invar [OF assms(1)] assms(2)] .
  then have g: "get_bucket_index st (fst r) = Some (int i)"
    using i r by (simp add: lh_invar_def addressing_ok_def)
  have p: "py_index (buckets st) (int i) = Some i" using i by (simp add: py_index_def)
  have "HashPage_search (buckets st ! i) (fst r) = [r]"
    using inv i r by (simp add: HashPage_search_distinct lh_invar_def chains_distinct_def)
  with g p show "get_bucket_index st (fst r) = Some (int i)
                   \<and> LinearHashIndex_search st (fst r) = Some [r]"
    by (simp add: LinearHashIndex_search_def)
qed

lemma init_512_1:
  "LinearHashIndex_init 512 1 =
     \<lparr>lh_size = 512, level = 0, next_split = 0, initial_buckets = 1, num_buckets = 1,
      buckets = [HashPage [] None], num_records = 0, num_splits = 0\<rparr>"
  by (simp add: LinearHashIndex_init_def)

lemmas hash_eval =
  LinearHashIndex_insert_def LinearHashIndex_split_def get_bucket_index_def
  lh_hash_def py_index_def Let_def HashPage_insert_fit HashPage_insert_dup
  used_space_records_def cpython_sizing_def entry_items_def digits30.simps
  need_split_def example_reached_def exact_load_test_def

lemma five_inserts_run:
  "lh_run cpython_sizing example_reached (LinearHashIndex_init 512 1) five_inserts
     = Some after_five_inserts"
  by (simp add: five_inserts_def init_512_1 hash_eval after_five_inserts_def)

theorem stored_keys_stay_addressable_witness:
  "(0::int) < 1
   \<and> lh_run cpython_sizing example_reached (LinearHashIndex_init 512 1) five_inserts
       = Some after_five_inserts
   \<and> 1 < length (buckets after_five_inserts)
   \<and> (3, []) \<in> set (get_all_records (buckets after_five_inserts ! 1))
   \<and> get_bucket_index after_five_inserts (fst (3::int, []::int list)) = Some (int 1)
   \<and> LinearHashIndex_search after_five_inserts (fst (3::int, []::int list)) = Some [(3, [])]"
proof -
  have p: "(0::int) < 1" by simp
  have i: "1 < length (buckets after_five_inserts)" by (simp add: after_five_inserts_def)
  have r: "(3, []) \<in> set (get_all_records (buckets after_five_inserts ! 1))"
    by (simp add: after_five_inserts_def)
  from stored_keys_stay_addressable [OF p five_inserts_run, rule_format, OF i r]
    p five_inserts_run i r
  show ?thesis by blast
qed

section \<open>Splits keep the stored records\<close>

lemma redistribute_mset:
  assumes "initial_buckets st \<noteq> 0" "distinct (map fst rs)"
    and "\<forall>r\<in>set rs. tuple_sizeof sz r \<le> lh_size st"
    and "fst ` set rs \<inter> fst ` set (get_all_records ob0) = {}"
    and "fst ` set rs \<inter> fst ` set (get_all_records nb0) = {}"
  shows "\<exists>ob nb. redistribute sz st old rs (ob0, nb0) = Some (ob, nb)
           \<and> mset (get_all_records ob) + mset (get_all_records nb)
               = mset (get_all_records ob0) + mset (get_all_records nb0) + mset rs"
  using assms(2-5)
proof (induction rs arbitrary: ob0 nb0)
  case Nil
  then show ?case by simp
next
  case (Cons r rs)
  let ?S = "lh_size st"
  have "2 ^ (level st + 1) * initial_buckets st \<noteq> 0" using assms(1) by simp
  then obtain idx where idx: "lh_hash st (fst r) (level st + 1) = Some idx"
    by (simp add: lh_hash_def Let_def)
  have fit: "get_size sz (PyTuple r) \<le> ?S" using Cons.prems(2) by simp
  have rs_d: "distinct (map fst rs)" and r_new: "fst r \<notin> fst ` set rs"
    using Cons.prems(1) by simp_all
  have rs_fit: "\<forall>x\<in>set rs. tuple_sizeof sz x \<le> ?S" using Cons.prems(2) by simp
  have placed: "\<exists>p'. HashPage_insert sz ?S p (PyTuple r) = Some (True, p')
                  \<and> mset (get_all_records p') = add_mset r (mset (get_all_records p))
                  \<and> fst ` set rs \<inter> fst ` set (get_all_records p') = {}"
    if p: "fst ` set (r # rs) \<inter> fst ` set (get_all_records p) = {}" for p
  proof -
    from HashPage_insert_returns [OF fit, of p] obtain b p' where
      i: "HashPage_insert sz ?S p (PyTuple r) = Some (b, p')" by auto
    have "HashPage_search p (fst (seq_entry (PyTuple r))) = []"
      using p by (simp add: HashPage_search_empty_iff)
    with HashPage_insert_result [OF i] have b: "b"
      and m: "mset (get_all_records p') = add_mset r (mset (get_all_records p))"
      by simp_all
    from m have "set (get_all_records p') = insert r (set (get_all_records p))"
      by (metis set_mset_add_mset_insert set_mset_mset)
    with p r_new have "fst ` set rs \<inter> fst ` set (get_all_records p') = {}" by auto
    with i b m show ?thesis by simp
  qed
  have ob_rs: "fst ` set rs \<inter> fst ` set (get_all_records ob0) = {}"
    and nb_rs: "fst ` set rs \<inter> fst ` set (get_all_records nb0) = {}"
    using Cons.prems(3,4) by auto
  show ?case
  proof (cases "idx = int old")
    case True
    from placed [OF Cons.prems(3)] obtain p' where
      i: "HashPage_insert sz ?S ob0 (PyTuple r) = Some (True, p')"
      and m: "mset (get_all_records p') = add_mset r (mset (get_all_records ob0))"
      and d: "fst ` set rs \<inter> fst ` set (get_all_records p') = {}" by blast
    from Cons.IH [OF rs_d rs_fit d nb_rs] obtain ob nb where
      "redistribute sz st old rs (p', nb0) = Some (ob, nb)"
      "mset (get_all_records ob) + mset (get_all_records nb)
         = mset (get_all_records p') + mset (get_all_records nb0) + mset rs" by blast
    with idx True i m show ?thesis by simp
  next
    case False
    from placed [OF Cons.prems(4)] obtain p' where
      i: "HashPage_insert sz ?S nb0 (PyTuple r) = Some (True, p')"
      and m: "mset (get_all_records p') = add_mset r (mset (get_all_records nb0))"
      and d: "fst ` set rs \<inter> fst ` set (get_all_records p') = {}" by blast
    from Cons.IH [OF rs_d rs_fit ob_rs d] obtain ob nb where
      "redistribute sz st old rs (ob0, p') = Some (ob, nb)"
      "mset (get_all_records ob) + mset (get_all_records nb)
         = mset (get_all_records ob0) + mset (get_all_records p') + mset rs" by blast
    with idx False i m show ?thesis by simp
  qed
qed

lemma sum_list_update_mset:
  fixes f :: "'a \<Rightarrow> 'b multiset"
  shows "i < length xs \<Longrightarrow> (\<Sum>x\<leftarrow>xs[i := y]. f x) + f (xs ! i) = (\<Sum>x\<leftarrow>xs. f x) + f y"
proof (induction xs arbitrary: i)
  case Nil
  then show ?case by simp
next
  case (Cons a xs)
  show ?case
  proof (cases i)
    case 0
    then show ?thesis by simp
  next
    case (Suc j)
    with Cons.prems have "j < length xs" by simp
    from Cons.IH [OF this] Suc show ?thesis by (simp add: add.assoc)
  qed
qed

lemma hash_split_keeps_records:
  assumes "initial_buckets st \<noteq> 0" "next_split st < length (buckets st)"
    and "distinct (map fst (get_all_records (buckets st ! next_split st)))"
    and "\<forall>r\<in>set (get_all_records (buckets st ! next_split st)). tuple_sizeof sz r \<le> lh_size st"
  shows "\<exists>st'. LinearHashIndex_split sz st = Some st' \<and> stored_records st' = stored_records st"
proof -
  let ?s = "next_split st"
  let ?rs = "get_all_records (buckets st ! ?s)"
  let ?E = "HashPage [] None"
  from redistribute_mset [OF assms(1,3,4), of ?E ?E ?s] obtain ob nb where
    red: "redistribute sz st ?s ?rs (?E, ?E) = Some (ob, nb)"
    and m: "mset (get_all_records ob) + mset (get_all_records nb) = mset ?rs" by auto
  let ?st' = "st\<lparr>num_splits := num_splits st + 1,
                  buckets := (buckets st)[?s := ob] @ [nb],
                  num_buckets := num_buckets st + 1,
                  next_split := (if int (?s + 1) \<ge> 2 ^ level st * initial_buckets st then 0
                                 else ?s + 1),
                  level := (if int (?s + 1) \<ge> 2 ^ level st * initial_buckets st
                            then level st + 1 else level st)\<rparr>"
  have sp: "LinearHashIndex_split sz st = Some ?st'"
    using assms(2) red by (simp add: LinearHashIndex_split_def Let_def)
  let ?f = "\<lambda>b. mset (get_all_records b)"
  have "stored_records ?st' + mset ?rs
          = (\<Sum>b\<leftarrow>(buckets st)[?s := ob]. ?f b) + ?f (buckets st ! ?s) + ?f nb"
    by (simp add: stored_records_def)
  also have "\<dots> = (\<Sum>b\<leftarrow>buckets st. ?f b) + ?f ob + ?f nb"
    using sum_list_update_mset [OF assms(2), of ?f ob] by simp
  also have "\<dots> = stored_records st + mset ?rs"
    using m by (simp add: stored_records_def add.assoc)
  finally have "stored_records ?st' = stored_records st" by simp
  with sp show ?thesis by blast
qed

lemma sum_list_take_drop_mset:
  fixes f :: "'a \<Rightarrow> 'b multiset"
  shows "(\<Sum>x\<leftarrow>take n xs. f x) + (\<Sum>x\<leftarrow>drop n xs. f x) = (\<Sum>x\<leftarrow>xs. f x)"
proof -
  have "(\<Sum>x\<leftarrow>take n xs @ drop n xs. f x) = (\<Sum>x\<leftarrow>xs. f x)" by simp
  then show ?thesis unfolding map_append sum_list_append .
qed

lemma page_split_keeps_records:
  "page_records (fst (page_split p)) + page_records (snd (page_split p)) = page_records p"
proof (cases p)
  case (LeafPage data)
  have "mset (take (length data div 2) data) + mset (drop (length data div 2) data) = mset data"
    by (metis append_take_drop_id mset_append)
  with LeafPage show ?thesis by (simp add: LeafPage_split_def Let_def)
next
  case (NonLeafPage data)
  then show ?thesis
    by (simp add: NonLeafPage_split_def Let_def sum_list_take_drop_mset)
qed

text \<open>
  C5. A split keeps the records: the records of a leaf are those it retains together with
  those of the new leaf; the records in the subtree of any page, leaf or internal, are
  those under the retained page together with those under the new page; and a split of
  the hash index, when no key is twice in the chain of the split bucket and each of its
  records fits an empty page, returns and leaves the records of all buckets as they were.
\<close>

theorem splits_preserve_records:
  "mset (fst (LeafPage_split data)) + mset (snd (LeafPage_split data)) = mset data
   \<and> page_records (NonLeafPage (fst (NonLeafPage_split slots)))
       + page_records (NonLeafPage (snd (NonLeafPage_split slots)))
       = page_records (NonLeafPage slots)
   \<and> page_records (fst (page_split p)) + page_records (snd (page_split p)) = page_records p
   \<and> (initial_buckets st \<noteq> 0 \<and> next_split st < length (buckets st)
       \<and> distinct (map fst (get_all_records (buckets st ! next_split st)))
       \<and> (\<forall>r\<in>set (get_all_records (buckets st ! next_split st)).
             tuple_sizeof sz r \<le> lh_size st)
       \<longrightarrow> (\<exists>st'. LinearHashIndex_split sz st = Some st'
                 \<and> stored_records st' = stored_records st))"
proof (intro conjI impI)
  show "mset (fst (LeafPage_split data)) + mset (snd (LeafPage_split data)) = mset data"
    using page_split_keeps_records [of "LeafPage data"] by (simp add: split_def)
  show "page_records (NonLeafPage (fst (NonLeafPage_split slots)))
          + page_records (NonLeafPage (snd (NonLeafPage_split slots)))
          = page_records (NonLeafPage slots)"
    using page_split_keeps_records [of "NonLeafPage slots"] by (simp add: split_def)
  show "page_records (fst (page_split p)) + page_records (snd (page_split p)) = page_records p"
    by (rule page_split_keeps_records)
next
  assume "initial_buckets st \<noteq> 0 \<and> next_split st < length (buckets st)
       \<and> distinct (map fst (get_all_records (buckets st ! next_split st)))
       \<and> (\<forall>r\<in>set (get_all_records (buckets st ! next_split st)).
             tuple_sizeof sz r \<le> lh_size st)"
  then show "\<exists>st'. LinearHashIndex_split sz st = Some st'
                 \<and> stored_records st' = stored_records st"
    using hash_split_keeps_records [of st sz] by blast
qed

lemma before_split_splits:
  "LinearHashIndex_split cpython_sizing before_split = Some after_five_inserts"
  by (simp add: before_split_def after_five_inserts_def hash_eval)

theorem splits_preserve_records_witness:
  "initial_buckets before_split \<noteq> 0 \<and> next_split before_split < length (buckets before_split)
   \<and> distinct (map fst (get_all_records (buckets before_split ! next_split before_split)))
   \<and> list_all (\<lambda>r. tuple_sizeof cpython_sizing r \<le> lh_size before_split)
        (get_all_records (buckets before_split ! next_split before_split))
   \<and> LinearHashIndex_split cpython_sizing before_split = Some after_five_inserts
   \<and> stored_records after_five_inserts = stored_records before_split
   \<and> LeafPage_split leaf_example = ([(3, [0]), (5, [1])], [(5, [2]), (8, [0])])
   \<and> mset (fst (LeafPage_split leaf_example)) + mset (snd (LeafPage_split leaf_example))
       = mset leaf_example
   \<and> page_records (fst (page_split node_example)) + page_records (snd (page_split node_example))
       = page_records node_example"
proof -
  have h: "initial_buckets before_split \<noteq> 0 \<and> next_split before_split < length (buckets before_split)
       \<and> distinct (map fst (get_all_records (buckets before_split ! next_split before_split)))
       \<and> (\<forall>r\<in>set (get_all_records (buckets before_split ! next_split before_split)).
             tuple_sizeof cpython_sizing r \<le> lh_size before_split)"
    by (simp add: before_split_def cpython_sizing_def entry_items_def)
  have l: "list_all (\<lambda>r. tuple_sizeof cpython_sizing r \<le> lh_size before_split)
        (get_all_records (buckets before_split ! next_split before_split))"
    using h by (simp add: list_all_iff)
  have e: "LeafPage_split leaf_example = ([(3, [0]), (5, [1])], [(5, [2]), (8, [0])])"
    by (simp add: LeafPage_split_def leaf_example_def)
  note t = splits_preserve_records [of leaf_example "[]" node_example before_split cpython_sizing]
  from t h have "\<exists>st'. LinearHashIndex_split cpython_sizing before_split = Some st'
                 \<and> stored_records st' = stored_records before_split" by blast
  then have s: "stored_records after_five_inserts = stored_records before_split"
    by (simp add: before_split_splits)
  from t h l e s before_split_splits show ?thesis by blast
qed

section \<open>When the hash index splits\<close>

text \<open>
  The outcome of the load test is a parameter here, so this much can be said: an insert
  that returns false changes nothing; an insert that returns true counts the record and
  then splits once, at the split pointer, exactly when the test on the new record count
  holds, and not at all otherwise.
\<close>

lemma split_counts:
  "LinearHashIndex_split sz st = Some st'
   \<Longrightarrow> num_splits st' = num_splits st + 1 \<and> num_buckets st' = num_buckets st + 1
       \<and> length (buckets st') = length (buckets st) + 1
       \<and> num_records st' = num_records st
       \<and> (\<forall>i<length (buckets st). i \<noteq> next_split st \<longrightarrow> buckets st' ! i = buckets st ! i)"
  by (auto simp: LinearHashIndex_split_def Let_def nth_append split: if_splits option.splits)

lemma insert_splits_at_most_once:
  assumes "LinearHashIndex_insert sz reached st rc = Some (ok, st')"
  shows "(\<not> ok \<longrightarrow> st' = st)
         \<and> (ok \<longrightarrow> num_records st' = num_records st + 1
              \<and> (if reached (num_records st + 1) (num_buckets st)
                  then num_splits st' = num_splits st + 1
                       \<and> num_buckets st' = num_buckets st + 1
                       \<and> length (buckets st') = length (buckets st) + 1
                  else num_splits st' = num_splits st \<and> num_buckets st' = num_buckets st
                       \<and> length (buckets st') = length (buckets st)))"
proof -
  from assms obtain idx where
    g: "get_bucket_index st (fst (seq_entry rc)) = Some idx"
    by (cases "get_bucket_index st (fst (seq_entry rc))")
       (simp_all add: LinearHashIndex_insert_def)
  from assms g obtain i where p: "py_index (buckets st) idx = Some i"
    by (cases "py_index (buckets st) idx") (simp_all add: LinearHashIndex_insert_def)
  from assms g p obtain a bk where
    hp: "HashPage_insert sz (lh_size st) (buckets st ! i) rc = Some (a, bk)"
    by (cases "HashPage_insert sz (lh_size st) (buckets st ! i) rc")
       (auto simp: LinearHashIndex_insert_def)
  note res = HashPage_insert_result [OF hp]
  let ?st1 = "st\<lparr>buckets := (buckets st)[i := bk], num_records := num_records st + 1\<rparr>"
  show ?thesis
  proof (cases a)
    case False
    with res have "bk = buckets st ! i" by simp
    with assms g p hp False have "ok = False \<and> st' = st"
      by (simp add: LinearHashIndex_insert_def)
    then show ?thesis by simp
  next
    case True
    with assms g p hp obtain t where
      n: "need_split sz reached ?st1 = Some t"
      by (cases "need_split sz reached ?st1")
         (simp_all add: LinearHashIndex_insert_def Let_def)
    from n have t: "t = reached (num_records st + 1) (num_buckets st)"
      by (auto simp: need_split_def Let_def split: if_splits)
    show ?thesis
    proof (cases t)
      case True
      with assms g p hp n \<open>a\<close> have "ok" and "LinearHashIndex_split sz ?st1 = Some st'"
        by (auto simp: LinearHashIndex_insert_def Let_def)
      from split_counts [OF this(2)] True t \<open>ok\<close> show ?thesis by simp
    next
      case False
      with assms g p hp n \<open>a\<close> have "ok" and "st' = ?st1"
        by (auto simp: LinearHashIndex_insert_def Let_def)
      with False t show ?thesis by simp
    qed
  qed
qed

section \<open>Payloads of internal pages\<close>

lemma list_all_step2:
  "list_all P (step2 xs) \<longleftrightarrow> (\<forall>i<length xs. even i \<longrightarrow> P (xs ! i))"
proof (induction xs rule: step2.induct)
  case 1
  then show ?case by simp
next
  case (2 x)
  then show ?case by simp
next
  case (3 x y zs)
  have "(\<forall>i<length (x # y # zs). even i \<longrightarrow> P ((x # y # zs) ! i))
          \<longleftrightarrow> P x \<and> (\<forall>j<length zs. even j \<longrightarrow> P (zs ! j))"
  proof
    assume a: "\<forall>i<length (x # y # zs). even i \<longrightarrow> P ((x # y # zs) ! i)"
    from a [rule_format, of 0] have "P x" by simp
    moreover have "\<forall>j<length zs. even j \<longrightarrow> P (zs ! j)"
    proof (intro allI impI)
      fix j assume "j < length zs" "even j"
      with a [rule_format, of "Suc (Suc j)"] show "P (zs ! j)" by simp
    qed
    ultimately show "P x \<and> (\<forall>j<length zs. even j \<longrightarrow> P (zs ! j))" ..
  next
    assume b: "P x \<and> (\<forall>j<length zs. even j \<longrightarrow> P (zs ! j))"
    show "\<forall>i<length (x # y # zs). even i \<longrightarrow> P ((x # y # zs) ! i)"
    proof (intro allI impI)
      fix i assume i: "i < length (x # y # zs)" "even i"
      show "P ((x # y # zs) ! i)"
      proof (cases i)
        case 0
        with b show ?thesis by simp
      next
        case (Suc m)
        with i obtain j where j: "m = Suc j" by (cases m) auto
        with Suc i b show ?thesis by simp
      qed
    qed
  qed
  with 3 show ?case by simp
qed

lemma list_all_keys:
  "list_all P (get_key_list xs) \<longleftrightarrow> (\<forall>i<length xs. odd i \<longrightarrow> P (xs ! i))"
proof -
  have "list_all P (get_key_list xs)
          \<longleftrightarrow> (\<forall>j<length xs - 1. even j \<longrightarrow> P (xs ! (Suc j)))"
    by (simp add: get_key_list_def list_all_step2)
  also have "\<dots> \<longleftrightarrow> (\<forall>i<length xs. odd i \<longrightarrow> P (xs ! i))"
  proof
    assume a: "\<forall>j<length xs - 1. even j \<longrightarrow> P (xs ! (Suc j))"
    show "\<forall>i<length xs. odd i \<longrightarrow> P (xs ! i)"
    proof (intro allI impI)
      fix i assume i: "i < length xs" "odd i"
      then obtain j where "i = Suc j" by (cases i) auto
      with i a [rule_format, of j] show "P (xs ! i)" by simp
    qed
  next
    assume b: "\<forall>i<length xs. odd i \<longrightarrow> P (xs ! i)"
    show "\<forall>j<length xs - 1. even j \<longrightarrow> P (xs ! (Suc j))"
    proof (intro allI impI)
      fix j assume "j < length xs - 1" "even j"
      with b [rule_format, of "Suc j"] show "P (xs ! (Suc j))" by simp
    qed
  qed
  finally show ?thesis .
qed

lemma alternating_iff:
  "alternating data \<longleftrightarrow>
     (\<forall>i<length data. (even i \<longrightarrow> is_Child (data ! i)) \<and> (odd i \<longrightarrow> is_Key (data ! i)))"
  unfolding alternating_def child_slots_def list_all_step2 list_all_keys by blast

lemma alternating_child:
  "alternating data \<Longrightarrow> even i \<Longrightarrow> i < length data \<Longrightarrow> \<exists>c. data ! i = Child c"
proof -
  assume "alternating data" "even i" "i < length data"
  then have "is_Child (data ! i)" by (simp add: alternating_iff)
  then show ?thesis by (cases "data ! i") simp_all
qed

lemma alternating_take: "alternating data \<Longrightarrow> alternating (take n data)"
  by (simp add: alternating_iff)

lemma alternating_drop: "alternating data \<Longrightarrow> even n \<Longrightarrow> alternating (drop n data)"
  by (simp add: alternating_iff)

lemma alternating_update:
  assumes "alternating data" "even i"
  shows "alternating (data[i := Child c])"
  unfolding alternating_iff
proof (intro allI impI)
  fix j assume j: "j < length (data[i := Child c])"
  show "(even j \<longrightarrow> is_Child (data[i := Child c] ! j))
          \<and> (odd j \<longrightarrow> is_Key (data[i := Child c] ! j))"
  proof (cases "j = i")
    case True
    with j assms(2) show ?thesis by simp
  next
    case False
    with j assms(1) show ?thesis by (simp add: alternating_iff)
  qed
qed

lemma list_insert_twice:
  "i < length data
   \<Longrightarrow> list_insert (list_insert data (i + 1) a) (i + 2) b
       = take (i + 1) data @ a # b # drop (i + 1) data"
  by (simp add: list_insert_def)

lemma alternating_insert:
  assumes "alternating data" "even i" "i < length data"
  shows "alternating (take (i + 1) data @ Key k # Child n # drop (i + 1) data)"
  unfolding alternating_iff
proof (intro allI impI)
  let ?new = "take (i + 1) data @ Key k # Child n # drop (i + 1) data"
  fix j assume j: "j < length ?new"
  have len: "length (take (i + 1) data) = i + 1" using assms(3) by simp
  consider (before) "j < i + 1" | (key) "j = i + 1" | (child) "j = i + 2" | (after) "i + 2 < j"
    by linarith
  then show "(even j \<longrightarrow> is_Child (?new ! j)) \<and> (odd j \<longrightarrow> is_Key (?new ! j))"
  proof cases
    case before
    then have "?new ! j = data ! j" using len by (simp add: nth_append)
    with before assms show ?thesis by (simp add: alternating_iff)
  next
    case key
    then have "?new ! j = Key k" using len by (simp add: nth_append)
    with key assms(2) show ?thesis by simp
  next
    case child
    then have "?new ! j = Child n" using len by (simp add: nth_append)
    with child assms(2) show ?thesis by simp
  next
    case after
    define m where "m = j - (i + 3)"
    have m: "j = i + 3 + m" using after by (simp add: m_def)
    then have "?new ! j = data ! (i + 1 + m)" using len by (simp add: nth_append)
    moreover have "i + 1 + m < length data" using j m assms(3) by simp
    moreover have "even j \<longleftrightarrow> even (i + 1 + m)" using m by auto
    ultimately show ?thesis using assms(1) by (simp add: alternating_iff)
  qed
qed

lemma first_key_of_payload:
  assumes "alternating data" "2 \<le> length data"
  shows "\<exists>k ss. get_key_list data = Key k # ss \<and> data ! 1 = Key k"
proof -
  from assms(2) obtain a b rest where d: "data = a # b # rest"
    by (cases data; cases "tl data") auto
  from assms have "is_Key (data ! 1)" by (simp add: alternating_iff)
  with d obtain k where k: "b = Key k" by (cases b) simp_all
  have "step2 (b # rest) = b # step2 (drop 1 rest)" by (cases rest) simp_all
  with d k show ?thesis by (simp add: get_key_list_def)
qed

lemma nl_bs_loop_returns:
  "list_all is_Key ks \<Longrightarrow> en \<le> length ks \<Longrightarrow> \<exists>p. nl_bs_loop ks key bgn en = Some p"
proof (induction ks key bgn en rule: nl_bs_loop.induct)
  case (1 ks key bgn en)
  show ?case
  proof (cases "bgn < en")
    case False
    then show ?thesis by (simp add: nl_bs_loop.simps)
  next
    case True
    let ?h = "(bgn + en) div 2"
    have h: "?h < en" "?h < length ks" using True "1.prems"(2) by auto
    with "1.prems"(1) have "is_Key (ks ! ?h)" by (simp add: list_all_length)
    then obtain k where k: "ks ! ?h = Key k" by (cases "ks ! ?h") simp_all
    show ?thesis
    proof (cases "key < k")
      case lt: True
      from "1.IH"(1) [OF True refl k lt "1.prems"(1)] h
      obtain p where "nl_bs_loop ks key bgn ?h = Some p" by auto
      with True k lt show ?thesis by (subst nl_bs_loop.simps) (simp add: Let_def)
    next
      case ge: False
      from "1.IH"(2) [OF True refl k ge "1.prems"]
      obtain p where "nl_bs_loop ks key (?h + 1) en = Some p" by auto
      with True k ge show ?thesis by (subst nl_bs_loop.simps) (simp add: Let_def)
    qed
  qed
qed

lemma binary_search_returns:
  "alternating data \<Longrightarrow> \<exists>p. NonLeafPage_binary_search data key = Some p \<and> even p"
proof -
  assume "alternating data"
  then have "list_all is_Key (get_key_list data)" by (simp add: alternating_def)
  from nl_bs_loop_returns [OF this order_refl, of key 0]
  show ?thesis by (auto simp: NonLeafPage_binary_search_def)
qed

lemma lmax_append: "lmax (xs @ ys) = max (lmax xs) (lmax ys)"
  by (induction xs) (simp_all add: max.assoc)

lemma fold_max_lmax: "fold max hs a = max a (lmax hs)"
  by (induction hs arbitrary: a) (simp_all add: max.assoc max.commute max.left_commute)

lemma lmax_update:
  "i < length hs \<Longrightarrow> lmax (hs[i := v]) = max v (lmax (take i hs @ drop (Suc i) hs))"
  by (simp add: upd_conv_take_nth_drop lmax_append max.left_commute)

lemma lmax_take_drop: "max (lmax (take n hs)) (lmax (drop n hs)) = lmax hs"
  by (metis append_take_drop_id lmax_append)

section \<open>Well-formed pages\<close>

lemma those_map_Some: "(\<forall>x\<in>set xs. f x = Some (g x)) \<Longrightarrow> those (map f xs) = Some (map g xs)"
  by (induction xs) simp_all

lemma lmax_step2:
  "(\<forall>i<length xs. odd i \<longrightarrow> f (xs ! i) = 0) \<Longrightarrow> lmax (map f (step2 xs)) = lmax (map f xs)"
proof (induction xs rule: step2.induct)
  case 1
  then show ?case by simp
next
  case (2 x)
  then show ?case by simp
next
  case (3 x y zs)
  from "3.prems" [rule_format, of 1] have y: "f y = 0" by simp
  have "\<forall>i<length zs. odd i \<longrightarrow> f (zs ! i) = 0"
  proof (intro allI impI)
    fix i assume "i < length zs" "odd i"
    with "3.prems" [rule_format, of "Suc (Suc i)"] show "f (zs ! i) = 0" by simp
  qed
  with "3.IH" y show ?case by simp
qed

lemma page_ok_child:
  "page_ok (NonLeafPage data) \<Longrightarrow> Child c \<in> set data \<Longrightarrow> page_ok c"
  by (auto simp: list_all_iff)

lemma height_of_ok: "page_ok p \<Longrightarrow> get_height p = Some (tree_height p)"
proof (induction p)
  case (LeafPage data)
  then show ?case by simp
next
  case (NonLeafPage data)
  let ?sh = "\<lambda>s. case s of Child c \<Rightarrow> tree_height c | _ \<Rightarrow> 0"
  let ?gh = "\<lambda>s. case s of Child c \<Rightarrow> get_height c | _ \<Rightarrow> None"
  from NonLeafPage.prems have alt: "alternating data" by simp
  have "\<forall>s\<in>set (child_slots data). ?gh s = Some (?sh s)"
  proof
    fix s assume s: "s \<in> set (child_slots data)"
    then have sd: "s \<in> set data" using step2_subset [of data] by (auto simp: child_slots_def)
    from alt s have "is_Child s" by (simp add: alternating_def list_all_iff)
    then obtain c where c: "s = Child c" by (cases s) simp_all
    with sd NonLeafPage.prems have "page_ok c" using page_ok_child by blast
    with NonLeafPage.IH [of s c] sd c show "?gh s = Some (?sh s)" by simp
  qed
  then have t: "those (map ?gh (child_slots data)) = Some (map ?sh (child_slots data))"
    by (rule those_map_Some)
  have "\<forall>i<length data. odd i \<longrightarrow> ?sh (data ! i) = 0"
  proof (intro allI impI)
    fix i assume "i < length data" "odd i"
    with alt have "is_Key (data ! i)" by (simp add: alternating_iff)
    then show "?sh (data ! i) = 0" by (cases "data ! i") simp_all
  qed
  then have "lmax (map ?sh (child_slots data)) = lmax (map ?sh data)"
    unfolding child_slots_def by (rule lmax_step2)
  with t show ?case by (simp add: fold_max_lmax)
qed

lemma split_point_even:
  "even (let mid = n div 2; mid = (if mid mod 2 = 1 then mid - 1 else mid) in mid :: nat)"
  by (simp add: Let_def) presburger

lemma split_point_le:
  "(let mid = n div 2; mid = (if mid mod 2 = 1 then mid - 1 else mid) in mid :: nat) \<le> n div 2"
  by (simp add: Let_def)

lemma list_all_take_drop:
  "list_all P xs \<Longrightarrow> list_all P (take n xs) \<and> list_all P (drop n xs)"
  by (metis append_take_drop_id list_all_append)

text \<open>
  Splitting a page that has a record (a leaf) or at least two slots (an internal page)
  gives two well-formed pages and a key as the separator; the higher of the two is as
  high as the page was.
\<close>

lemma page_split_ok:
  assumes "page_ok p" and "is_leaf p \<longrightarrow> 1 \<le> payload_length p"
    and "\<not> is_leaf p \<longrightarrow> 2 \<le> payload_length p"
  shows "page_ok (fst (page_split p)) \<and> page_ok (snd (page_split p))
         \<and> (\<exists>k. separator_key (snd (page_split p)) = Some (Key k)
                \<and> first_key (snd (page_split p)) = Some k)
         \<and> max (tree_height (fst (page_split p))) (tree_height (snd (page_split p)))
             = tree_height p"
proof (cases p)
  case (LeafPage data)
  with assms(2) have "data \<noteq> []" by auto
  then have "length data div 2 < length data" by simp
  then have "drop (length data div 2) data \<noteq> []" by simp
  then obtain r rs where "drop (length data div 2) data = r # rs"
    by (cases "drop (length data div 2) data") auto
  with LeafPage show ?thesis by (simp add: LeafPage_split_def Let_def)
next
  case (NonLeafPage data)
  let ?sh = "\<lambda>s. case s of Child c \<Rightarrow> tree_height c | _ \<Rightarrow> 0"
  define mid where "mid = (let mid = length data div 2;
                               mid = (if mid mod 2 = 1 then mid - 1 else mid) in mid)"
  have ev: "even mid" unfolding mid_def by (rule split_point_even)
  have le: "mid \<le> length data div 2" unfolding mid_def by (rule split_point_le)
  have sp: "NonLeafPage_split data = (take mid data, drop mid data)"
    by (simp add: NonLeafPage_split_def mid_def Let_def)
  from NonLeafPage assms have alt: "alternating data" and len: "2 \<le> length data"
    and oks: "list_all (\<lambda>s. case s of Child c \<Rightarrow> page_ok c | _ \<Rightarrow> True) data"
    by simp_all
  have lk: "length (take mid data) = mid" using le by simp
  have lm: "2 \<le> length (drop mid data)"
  proof (cases "length data = 2")
    case True
    with le ev have "mid = 0" by (cases mid) auto
    with True show ?thesis by simp
  next
    case False
    with len le show ?thesis by simp
  qed
  have k_ok: "page_ok (NonLeafPage (take mid data))"
    using alternating_take [OF alt, of mid] list_all_take_drop [OF oks, of mid] lk ev
    by auto
  have m_alt: "alternating (drop mid data)" using alt ev by (rule alternating_drop)
  have m_ok: "page_ok (NonLeafPage (drop mid data))"
    using m_alt list_all_take_drop [OF oks, of mid] lm by auto
  from first_key_of_payload [OF m_alt lm] obtain k ss where
    kl: "get_key_list (drop mid data) = Key k # ss" and k1: "drop mid data ! 1 = Key k" by blast
  from lm obtain a b rest where abr: "drop mid data = a # b # rest"
    by (cases "drop mid data"; cases "tl (drop mid data)") auto
  with k1 have "first_key (NonLeafPage (drop mid data)) = Some k" by simp
  with kl have sep: "separator_key (NonLeafPage (drop mid data)) = Some (Key k)
                       \<and> first_key (NonLeafPage (drop mid data)) = Some k" by simp
  have "max (lmax (map ?sh (take mid data))) (lmax (map ?sh (drop mid data)))
          = lmax (map ?sh data)"
    using lmax_take_drop [of mid "map ?sh data"] by (simp add: take_map drop_map)
  then have h: "max (tree_height (NonLeafPage (take mid data)))
                    (tree_height (NonLeafPage (drop mid data)))
                  = tree_height (NonLeafPage data)"
    by simp
  from k_ok m_ok sep h show ?thesis unfolding NonLeafPage by (simp add: sp)
qed

lemma page_split_leafness:
  "is_leaf (fst (page_split p)) = is_leaf p \<and> is_leaf (snd (page_split p)) = is_leaf p"
  by (cases p) (simp_all add: split_def)

section \<open>Insertion into a well-formed tree\<close>

lemma split_child_ok:
  assumes alt: "alternating data"
    and oks: "list_all (\<lambda>s. case s of Child c \<Rightarrow> page_ok c | _ \<Rightarrow> True) data"
    and i: "even i" "i < length data" and at: "data ! i = Child child"
    and c1: "is_leaf child \<longrightarrow> 1 \<le> payload_length child"
    and c2: "\<not> is_leaf child \<longrightarrow> 2 \<le> payload_length child"
  shows "\<exists>data'. split_child data i = Some data' \<and> alternating data'
           \<and> length data' = length data + 2
           \<and> list_all (\<lambda>s. case s of Child c \<Rightarrow> page_ok c | _ \<Rightarrow> True) data'
           \<and> lmax (map (\<lambda>s. case s of Child c \<Rightarrow> tree_height c | _ \<Rightarrow> 0) data')
               = lmax (map (\<lambda>s. case s of Child c \<Rightarrow> tree_height c | _ \<Rightarrow> 0) data)"
proof -
  let ?ok = "\<lambda>s. case s of Child c \<Rightarrow> page_ok c | _ \<Rightarrow> True"
  let ?sh = "\<lambda>s. case s of Child c \<Rightarrow> tree_height c | _ \<Rightarrow> 0"
  let ?kept = "fst (page_split child)"
  let ?moved = "snd (page_split child)"
  let ?d1 = "data[i := Child ?kept]"
  have cok: "page_ok child"
    using oks i(2) at by (auto simp: list_all_length dest: spec [of _ i])
  from page_split_ok [OF cok c1 c2] obtain k where
    kept_ok: "page_ok ?kept" and moved_ok: "page_ok ?moved"
    and sep: "separator_key ?moved = Some (Key k)" and "first_key ?moved = Some k"
    and hs: "max (tree_height ?kept) (tree_height ?moved) = tree_height child"
    by blast
  let ?new = "take (i + 1) ?d1 @ Key k # Child ?moved # drop (i + 1) ?d1"
  have res: "split_child data i = Some ?new"
    using i(2) at sep list_insert_twice [of i ?d1 "Key k" "Child ?moved"]
    by (simp add: split_child_def split_def)
  have alt1: "alternating ?d1" using alt i(1) by (rule alternating_update)
  have alt': "alternating ?new" using alternating_insert [OF alt1 i(1)] i(2) by simp
  have len: "length ?new = length data + 2" using i(2) by simp
  have ok1: "list_all ?ok ?d1"
    using oks kept_ok i(2) by (simp add: list_all_length nth_list_update)
  have ok': "list_all ?ok ?new"
    using list_all_take_drop [OF ok1, of "i + 1"] moved_ok by simp
  let ?hs = "map ?sh data"
  let ?rest = "lmax (take i ?hs @ drop (Suc i) ?hs)"
  have il: "i < length ?hs" using i(2) by simp
  have m1: "map ?sh ?d1 = ?hs[i := tree_height ?kept]" by (simp add: map_update)
  have "lmax (map ?sh ?new)
          = max (max (lmax (take (i + 1) (map ?sh ?d1))) (lmax (drop (i + 1) (map ?sh ?d1))))
                (tree_height ?moved)"
    by (simp add: lmax_append take_map drop_map max.assoc max.commute max.left_commute)
  also have "\<dots> = max (lmax (map ?sh ?d1)) (tree_height ?moved)"
    by (simp only: lmax_take_drop)
  also have "\<dots> = max (max (tree_height ?kept) ?rest) (tree_height ?moved)"
    unfolding m1 lmax_update [OF il] ..
  also have "\<dots> = max (tree_height child) ?rest"
    using hs by (simp add: max.assoc max.commute max.left_commute)
  also have "\<dots> = lmax (?hs[i := tree_height child])"
    using lmax_update [OF il, of "tree_height child"] by simp
  also have "?hs[i := tree_height child] = ?hs"
    using at i(2) by (simp add: list_update_same_conv)
  finally have h: "lmax (map ?sh ?new) = lmax ?hs" .
  from res alt' len ok' h show ?thesis by blast
qed

lemma used_space_empty: "used_space sz (NonLeafPage []) = 0"
  by simp

lemma overfull_internal_has_slots:
  assumes "page_ok p" "0 \<le> S" "used_space sz p > S" "\<not> is_leaf p"
  shows "2 \<le> payload_length p"
proof (cases p)
  case (LeafPage data)
  with assms(4) show ?thesis by simp
next
  case (NonLeafPage data)
  with assms(2,3) have "data \<noteq> []" by auto
  moreover from NonLeafPage assms(1) have "length data \<noteq> 1" by simp
  ultimately have "2 \<le> length data" by (cases data; cases "tl data") auto
  with NonLeafPage show ?thesis by simp
qed

text \<open>
  On a well-formed page and with a page size that is not negative, \<^verbatim>\<open>insert\<close> returns; the
  page stays well-formed and as high as it was, and its payload does not get shorter.
\<close>

lemma page_insert_ok:
  "page_ok p \<Longrightarrow> 0 \<le> S
   \<Longrightarrow> \<exists>p'. page_insert sz S p r = Some p' \<and> page_ok p'
         \<and> tree_height p' = tree_height p \<and> is_leaf p' = is_leaf p
         \<and> payload_length p \<le> payload_length p'
         \<and> (is_leaf p' \<longrightarrow> 1 \<le> payload_length p')"
proof (induction sz S p r rule: page_insert.induct)
  case (1 sz S data r)
  have "length (snd (LeafPage_insert data r)) = Suc (length data)"
    using binary_search_le [of "leaf_key_list data" "fst r"]
    by (simp add: LeafPage_insert_def list_insert_def Let_def leaf_key_list_def)
  then show ?case by simp
next
  case (2 sz S data r)
  let ?ok = "\<lambda>s. case s of Child c \<Rightarrow> page_ok c | _ \<Rightarrow> True"
  let ?sh = "\<lambda>s. case s of Child c \<Rightarrow> tree_height c | _ \<Rightarrow> 0"
  from "2.prems"(1) have alt: "alternating data" and l1: "length data \<noteq> 1"
    and oks: "list_all ?ok data" by simp_all
  from binary_search_returns [OF alt, of "fst r"] obtain cp where
    bs: "NonLeafPage_binary_search data (fst r) = Some cp" and ev: "even cp" by blast
  show ?case
  proof (cases "cp < length data")
    case False
    with bs "2.prems"(1) show ?thesis by simp
  next
    case True
    from alternating_child [OF alt ev True] obtain child where at: "data ! cp = Child child"
      by blast
    have cok: "page_ok child"
      using oks True at by (auto simp: list_all_length dest: spec [of _ cp])
    from "2.IH" [OF bs True at cok "2.prems"(2)] obtain child' where
      ins: "page_insert sz S child r = Some child'" and c'ok: "page_ok child'"
      and c'h: "tree_height child' = tree_height child"
      and c'leaf: "is_leaf child' \<longrightarrow> 1 \<le> payload_length child'"
      by blast
    let ?d1 = "data[cp := Child child']"
    have alt1: "alternating ?d1" using alt ev by (rule alternating_update)
    have ok1: "list_all ?ok ?d1"
      using oks c'ok True by (simp add: list_all_length nth_list_update)
    have at1: "?d1 ! cp = Child child'" using True by simp
    have hs1: "map ?sh ?d1 = map ?sh data"
      using at True c'h by (simp add: map_update list_update_same_conv)
    show ?thesis
    proof (cases "used_space sz child' > S")
      case False
      with bs True at ins
      have "page_insert sz S (NonLeafPage data) r = Some (NonLeafPage ?d1)" by simp
      moreover have "page_ok (NonLeafPage ?d1)" using alt1 ok1 l1 by simp
      moreover have "tree_height (NonLeafPage ?d1) = tree_height (NonLeafPage data)"
        using hs1 by simp
      ultimately show ?thesis by simp
    next
      case over: True
      have c2: "\<not> is_leaf child' \<longrightarrow> 2 \<le> payload_length child'"
        using overfull_internal_has_slots [OF c'ok "2.prems"(2) over] by blast
      from split_child_ok [OF alt1 ok1 ev _ at1 c'leaf c2] True obtain data' where
        sc: "split_child ?d1 cp = Some data'" and alt': "alternating data'"
        and len': "length data' = length data + 2" and ok': "list_all ?ok data'"
        and h': "lmax (map ?sh data') = lmax (map ?sh ?d1)"
        by auto
      from bs True at ins over sc
      have "page_insert sz S (NonLeafPage data) r = Some (NonLeafPage data')" by simp
      moreover have "page_ok (NonLeafPage data')" using alt' ok' len' by simp
      moreover have "tree_height (NonLeafPage data') = tree_height (NonLeafPage data)"
        using h' hs1 by simp
      ultimately show ?thesis using len' by simp
    qed
  qed
qed

section \<open>Removal, search and the driver\<close>

text \<open>
  \<^verbatim>\<open>remove\<close> returns on a well-formed page and takes records out of a leaf only: every
  internal page keeps its children and its keys.
\<close>

lemma page_remove_ok:
  "page_ok p
   \<Longrightarrow> \<exists>b p'. page_remove p key = Some (b, p') \<and> page_shape p' = page_shape p
         \<and> page_ok p' \<and> tree_height p' = tree_height p \<and> is_leaf p' = is_leaf p
         \<and> (\<not> is_leaf p \<longrightarrow> payload_length p' = payload_length p)"
proof (induction p key rule: page_remove.induct)
  case (1 data key)
  obtain b data' where "LeafPage_remove data key = (b, data')"
    by (cases "LeafPage_remove data key")
  then show ?case by simp
next
  case (2 data key)
  let ?ok = "\<lambda>s. case s of Child c \<Rightarrow> page_ok c | _ \<Rightarrow> True"
  let ?sh = "\<lambda>s. case s of Child c \<Rightarrow> tree_height c | _ \<Rightarrow> 0"
  from "2.prems" have alt: "alternating data" and l1: "length data \<noteq> 1"
    and oks: "list_all ?ok data" by simp_all
  from binary_search_returns [OF alt, of key] obtain cp where
    bs: "NonLeafPage_binary_search data key = Some cp" and ev: "even cp" by blast
  show ?case
  proof (cases "cp < length data")
    case False
    with bs have "page_remove (NonLeafPage data) key = Some (False, NonLeafPage data)" by simp
    with "2.prems" show ?thesis
      by (intro exI [of _ False] exI [of _ "NonLeafPage data"]) simp
  next
    case True
    from alternating_child [OF alt ev True] obtain child where at: "data ! cp = Child child"
      by blast
    have cok: "page_ok child"
      using oks True at by (auto simp: list_all_length dest: spec [of _ cp])
    from "2.IH" [OF bs True at cok] obtain b child' where
      rm: "page_remove child key = Some (b, child')"
      and c's: "page_shape child' = page_shape child" and c'ok: "page_ok child'"
      and c'h: "tree_height child' = tree_height child"
      by blast
    let ?d1 = "data[cp := Child child']"
    have res: "page_remove (NonLeafPage data) key = Some (b, NonLeafPage ?d1)"
      using bs True at rm by simp
    have alt1: "alternating ?d1" using alt ev by (rule alternating_update)
    have ok1: "list_all ?ok ?d1"
      using oks c'ok True by (simp add: list_all_length nth_list_update)
    have hs1: "map ?sh ?d1 = map ?sh data"
      using at True c'h by (simp add: map_update list_update_same_conv)
    have sh1: "map (map_slot page_shape) ?d1 = map (map_slot page_shape) data"
      using at True c's by (simp add: map_update list_update_same_conv)
    have "page_ok (NonLeafPage ?d1)" using alt1 ok1 l1 by simp
    moreover have "tree_height (NonLeafPage ?d1) = tree_height (NonLeafPage data)"
      using hs1 by simp
    moreover have "page_shape (NonLeafPage ?d1) = page_shape (NonLeafPage data)"
      using sh1 by simp
    ultimately show ?thesis using res by simp
  qed
qed

lemma page_search_ok: "page_ok p \<Longrightarrow> \<exists>found. page_search p key = Some found"
proof (induction p key rule: page_search.induct)
  case (1 data key)
  then show ?case by simp
next
  case (2 data key)
  from "2.prems" have alt: "alternating data"
    and oks: "list_all (\<lambda>s. case s of Child c \<Rightarrow> page_ok c | _ \<Rightarrow> True) data" by simp_all
  from binary_search_returns [OF alt, of key] obtain cp where
    bs: "NonLeafPage_binary_search data key = Some cp" and ev: "even cp" by blast
  show ?case
  proof (cases "cp < length data")
    case False
    with bs show ?thesis by simp
  next
    case True
    from alternating_child [OF alt ev True] obtain child where at: "data ! cp = Child child"
      by blast
    have "page_ok child"
      using oks True at by (auto simp: list_all_length dest: spec [of _ cp])
    from "2.IH" [OF bs True at this] bs True at show ?thesis by simp
  qed
qed

lemma collapses_iff: "collapses p \<longleftrightarrow> \<not> is_leaf p \<and> payload_length p = 1"
  by (cases p) (simp_all add: collapses_def)

text \<open>What \<^verbatim>\<open>BTreeIndex.insert\<close> does on the root of a tree that is well-formed.\<close>

lemma driver_insert_ok:
  assumes "root_ok rootp" "0 \<le> S"
  shows "\<exists>root1. page_insert sz S rootp r = Some root1
           \<and> payload_length rootp \<le> payload_length root1
           \<and> (used_space sz root1 > S \<longrightarrow>
                (\<exists>k. first_key (snd (page_split root1)) = Some k
                   \<and> BTreeIndex_insert sz S rootp r
                       = Some (NonLeafPage [Child (fst (page_split root1)), Key k,
                                            Child (snd (page_split root1))])
                   \<and> root_ok (NonLeafPage [Child (fst (page_split root1)), Key k,
                                            Child (snd (page_split root1))])
                   \<and> tree_height (NonLeafPage [Child (fst (page_split root1)), Key k,
                                                Child (snd (page_split root1))])
                       = tree_height rootp + 1))
           \<and> (\<not> used_space sz root1 > S \<longrightarrow>
                BTreeIndex_insert sz S rootp r = Some root1 \<and> root_ok root1
                \<and> tree_height root1 = tree_height rootp)"
proof -
  from assms(1) have ok: "page_ok rootp" and big: "is_leaf rootp \<or> 3 \<le> payload_length rootp"
    by (simp_all add: root_ok_def)
  from page_insert_ok [OF ok assms(2), of sz r] obtain root1 where
    ins: "page_insert sz S rootp r = Some root1" and ok1: "page_ok root1"
    and h1: "tree_height root1 = tree_height rootp" and lf: "is_leaf root1 = is_leaf rootp"
    and grow: "payload_length rootp \<le> payload_length root1"
    and ne: "is_leaf root1 \<longrightarrow> 1 \<le> payload_length root1"
    by blast
  have r1: "root_ok root1" using ok1 lf grow big by (auto simp: root_ok_def)
  have two: "\<not> is_leaf root1 \<longrightarrow> 2 \<le> payload_length root1" using lf grow big by auto
  let ?kept = "fst (page_split root1)"
  let ?moved = "snd (page_split root1)"
  from page_split_ok [OF ok1 ne two] obtain k where
    kept_ok: "page_ok ?kept" and moved_ok: "page_ok ?moved"
    and sep: "separator_key ?moved = Some (Key k)" and fk: "first_key ?moved = Some k"
    and hs: "max (tree_height ?kept) (tree_height ?moved) = tree_height root1"
    by blast
  let ?new = "NonLeafPage [Child ?kept, Key k, Child ?moved]"
  have a: "alternating [Child ?kept, Key k, Child ?moved]"
    by (simp add: alternating_def child_slots_def get_key_list_def)
  have new_ok: "root_ok ?new" using a kept_ok moved_ok by (simp add: root_ok_def)
  have new_h: "tree_height ?new = tree_height rootp + 1" using hs h1 by simp
  have over: "BTreeIndex_insert sz S rootp r = Some ?new" if "used_space sz root1 > S"
    using that ins sep by (simp add: BTreeIndex_insert_def split_def)
  have stay: "BTreeIndex_insert sz S rootp r = Some root1" if "\<not> used_space sz root1 > S"
    using that ins by (simp add: BTreeIndex_insert_def)
  from ins grow fk over new_ok new_h stay r1 h1 show ?thesis by blast
qed

lemma driver_remove_ok:
  assumes "root_ok rootp"
  shows "\<exists>b t. page_remove rootp key = Some (b, t) \<and> page_shape t = page_shape rootp
           \<and> \<not> collapses t \<and> BTreeIndex_remove rootp key = Some (b, t)
           \<and> root_ok t \<and> tree_height t = tree_height rootp"
proof -
  from assms have ok: "page_ok rootp" and big: "is_leaf rootp \<or> 3 \<le> payload_length rootp"
    by (simp_all add: root_ok_def)
  from page_remove_ok [OF ok, of key] obtain b t where
    rm: "page_remove rootp key = Some (b, t)" and sh: "page_shape t = page_shape rootp"
    and tok: "page_ok t" and th: "tree_height t = tree_height rootp"
    and lf: "is_leaf t = is_leaf rootp"
    and len: "\<not> is_leaf rootp \<longrightarrow> payload_length t = payload_length rootp"
    by blast
  have nc: "\<not> collapses t" using lf len big by (auto simp: collapses_iff)
  have "BTreeIndex_remove rootp key = Some (b, t)"
    using rm nc by (simp add: BTreeIndex_remove_def)
  moreover have "root_ok t" using tok lf len big by (auto simp: root_ok_def)
  ultimately show ?thesis using rm sh nc th by blast
qed

lemma driver_step_ok:
  assumes "root_ok rootp" "0 \<le> S"
  shows "\<exists>t. bt_step sz S rootp x = Some t \<and> root_ok t \<and> tree_height rootp \<le> tree_height t"
proof (cases x)
  case (BInsert r)
  from driver_insert_ok [OF assms, of sz r] obtain root1 where
    a: "used_space sz root1 > S \<longrightarrow>
          (\<exists>t. BTreeIndex_insert sz S rootp r = Some t \<and> root_ok t
               \<and> tree_height t = tree_height rootp + 1)"
    and b: "\<not> used_space sz root1 > S \<longrightarrow>
          BTreeIndex_insert sz S rootp r = Some root1 \<and> root_ok root1
          \<and> tree_height root1 = tree_height rootp"
    by blast
  show ?thesis
  proof (cases "used_space sz root1 > S")
    case True
    with a BInsert show ?thesis by auto
  next
    case False
    with b BInsert show ?thesis by auto
  qed
next
  case (BRemove key)
  from driver_remove_ok [OF assms(1), of key] BRemove show ?thesis by auto
next
  case (BSearch key)
  from assms(1) have "page_ok rootp" by (simp add: root_ok_def)
  from page_search_ok [OF this, of key] BSearch assms(1) show ?thesis
    by (auto simp: BTreeIndex_search_def)
qed

lemma driver_run_ok:
  "root_ok rootp \<Longrightarrow> 0 \<le> S
   \<Longrightarrow> \<exists>t. bt_run sz S rootp xs = Some t \<and> root_ok t \<and> tree_height rootp \<le> tree_height t"
proof (induction xs arbitrary: rootp)
  case Nil
  then show ?case by simp
next
  case (Cons x xs)
  from driver_step_ok [OF Cons.prems, of sz x] obtain t1 where
    s: "bt_step sz S rootp x = Some t1" and ok1: "root_ok t1"
    and h1: "tree_height rootp \<le> tree_height t1" by blast
  from Cons.IH [OF ok1 Cons.prems(2)] obtain t where
    "bt_run sz S t1 xs = Some t" "root_ok t" "tree_height t1 \<le> tree_height t" by blast
  with s h1 show ?case by auto
qed

lemma init_root_ok: "root_ok BTreeIndex_init"
  by (simp add: root_ok_def BTreeIndex_init_def)

lemma reached_root_ok:
  assumes "0 \<le> S" "bt_run sz S BTreeIndex_init ops = Some rootp"
  shows "root_ok rootp"
  using driver_run_ok [OF init_root_ok assms(1), of sz ops] assms(2) by auto

lemma root_ok_height: "root_ok p \<Longrightarrow> get_height p = Some (tree_height p)"
  by (simp add: root_ok_def height_of_ok)

section \<open>The example tree\<close>

lemma run_55: "bt_run cpython_sizing 512 BTreeIndex_init (inserts_upto 55) = Some tree_55"
  by code_simp

lemma insert_56: "page_insert cpython_sizing 512 tree_55 (rec3 56) = Some root_56"
  by code_simp

lemma split_56: "page_split root_56 = (old_root_56, new_sibling_56)"
  by code_simp

lemma driver_insert_56:
  "BTreeIndex_insert cpython_sizing 512 tree_55 (rec3 56) = Some tree_56"
  by code_simp

lemma run_56: "bt_run cpython_sizing 512 BTreeIndex_init (inserts_upto 56) = Some tree_56"
  by code_simp

lemma used_space_56: "used_space cpython_sizing root_56 = 544"
  by code_simp

lemma retained_payload_even: "even (length (fst (NonLeafPage_split data)))"
proof -
  define mid where "mid = (let mid = length data div 2;
                               mid = (if mid mod 2 = 1 then mid - 1 else mid) in mid)"
  have ev: "even mid" unfolding mid_def by (rule split_point_even)
  have "mid \<le> length data div 2" unfolding mid_def by (rule split_point_le)
  then have le: "mid \<le> length data" by simp
  have "NonLeafPage_split data = (take mid data, drop mid data)"
    by (simp add: NonLeafPage_split_def mid_def Let_def)
  with le ev show ?thesis by simp
qed

section \<open>Search after insert\<close>

text \<open>Two records with the same key in a leaf are both found, in the order of insertion.\<close>

lemma duplicates_in_insertion_order:
  "bt_run cpython_sizing 512 BTreeIndex_init [BInsert (5, [1]), BInsert (5, [2])]
     = Some (LeafPage [(5, [1]), (5, [2])])
   \<and> BTreeIndex_search (LeafPage [(5, [1]), (5, [2])]) 5 = Some [(5, [1]), (5, [2])]"
  by code_simp

text \<open>
  The smallest run that splits an internal root, with 100-byte pages and the records
  \<^verbatim>\<open>[1]\<close>, ..., \<^verbatim>\<open>[6]\<close>: the root \<^verbatim>\<open>[leaf, 3, leaf, 5, leaf]\<close> is split into \<^verbatim>\<open>[leaf, 3]\<close> and
  \<^verbatim>\<open>[leaf, 5, leaf]\<close> under the separator 5, and the keys 3 and 4 are not found any more.
\<close>

lemma six_inserts_lose_a_leaf:
  "bt_run cpython_sizing 100 BTreeIndex_init
       (map (\<lambda>k. BInsert (k, [])) [1, 2, 3, 4, 5, 6])
     = Some (NonLeafPage
               [Child (NonLeafPage [Child (LeafPage [(1, []), (2, [])]), Key 3]),
                Key 5,
                Child (NonLeafPage [Child (LeafPage [(3, []), (4, [])]), Key 5,
                                    Child (LeafPage [(5, []), (6, [])])])])
   \<and> BTreeIndex_search
         (NonLeafPage
            [Child (NonLeafPage [Child (LeafPage [(1, []), (2, [])]), Key 3]),
             Key 5,
             Child (NonLeafPage [Child (LeafPage [(3, []), (4, [])]), Key 5,
                                 Child (LeafPage [(5, []), (6, [])])])]) 3
       = Some []"
  by code_simp

text \<open>
  C1. Search after insert, at the inputs where it fails: with 512-byte pages the 56th
  insert of the records \<^verbatim>\<open>[1, 0, 0]\<close>, \<^verbatim>\<open>[2, 0, 0]\<close>, ... splits the root, and from then on the
  leaf of the keys 26 to 30 is out of reach. A search for the inserted key 26 returns
  nothing, and an insert of \<^verbatim>\<open>[27, 1, 1]\<close> returns with the tree as it was and the record
  nowhere in it.
\<close>

theorem inserted_record_not_found:
  "bt_run cpython_sizing 512 BTreeIndex_init (inserts_upto 56) = Some tree_56
   \<and> rec3 26 \<in># page_records tree_56
   \<and> BTreeIndex_search tree_56 26 = Some []
   \<and> BTreeIndex_insert cpython_sizing 512 tree_56 (27, [1, 1]) = Some tree_56
   \<and> BTreeIndex_search tree_56 27 = Some []"
proof -
  have a: "rec3 26 \<in># page_records tree_56" by code_simp
  have b: "BTreeIndex_search tree_56 26 = Some []" by code_simp
  have c: "BTreeIndex_insert cpython_sizing 512 tree_56 (27, [1, 1]) = Some tree_56"
    by code_simp
  have d: "BTreeIndex_search tree_56 27 = Some []" by code_simp
  from run_56 a b c d show ?thesis by simp
qed

section \<open>The split of an internal page\<close>

text \<open>
  C2. The split of an internal page of odd payload length, at the root split of the 56th
  insert: the root has 21 slots and is over the page size; \<^verbatim>\<open>split()\<close> leaves it with its
  first 10 slots, an even number, ending with the key 26, and gives the other 11 to the
  new page.
\<close>

theorem internal_split_leaves_even_payload:
  "page_insert cpython_sizing 512 tree_55 (rec3 56) = Some root_56
   \<and> payload_length root_56 = 21
   \<and> used_space cpython_sizing root_56 > 512
   \<and> page_split root_56 = (old_root_56, new_sibling_56)
   \<and> payload_length old_root_56 = 10
   \<and> payload_length new_sibling_56 = 11"
proof -
  have a: "payload_length root_56 = 21" by (simp add: root_56_def)
  have b: "payload_length old_root_56 = 10" by (simp add: old_root_56_def)
  have c: "payload_length new_sibling_56 = 11" by (simp add: new_sibling_56_def)
  from insert_56 a used_space_56 split_56 b c show ?thesis by simp
qed

section \<open>Root splits and the height of the tree\<close>

text \<open>
  C8. On a tree reached from a new one, with a page size that is not negative: the insert
  below the root returns; when the root then exceeds the page size, the driver installs
  the new root \<^verbatim>\<open>[old_root, separator, new_sibling]\<close>, whose separator is the first key of
  the new sibling, and the height is 1 more than before; when it does not, the root
  stays and the height stays. A remove leaves the height as it is, and a search returns
  without touching the tree.
\<close>

theorem root_split_grows_height:
  assumes "0 \<le> S" and "bt_run sz S BTreeIndex_init ops = Some rootp"
  shows "\<exists>root1 h. page_insert sz S rootp r = Some root1 \<and> get_height rootp = Some h
           \<and> (used_space sz root1 > S \<longrightarrow>
                (\<exists>k. first_key (snd (page_split root1)) = Some k
                   \<and> BTreeIndex_insert sz S rootp r
                       = Some (NonLeafPage [Child (fst (page_split root1)), Key k,
                                            Child (snd (page_split root1))])
                   \<and> get_height (NonLeafPage [Child (fst (page_split root1)), Key k,
                                               Child (snd (page_split root1))])
                       = Some (h + 1)))
           \<and> (\<not> used_space sz root1 > S \<longrightarrow>
                BTreeIndex_insert sz S rootp r = Some root1 \<and> get_height root1 = Some h)
           \<and> (\<forall>key. \<exists>b t. BTreeIndex_remove rootp key = Some (b, t) \<and> get_height t = Some h)
           \<and> (\<forall>key. \<exists>found. BTreeIndex_search rootp key = Some found)"
proof -
  have ok: "root_ok rootp" using assms by (rule reached_root_ok)
  let ?h = "tree_height rootp"
  from driver_insert_ok [OF ok assms(1), of sz r] obtain root1 where
    ins: "page_insert sz S rootp r = Some root1"
    and over: "used_space sz root1 > S \<longrightarrow>
                (\<exists>k. first_key (snd (page_split root1)) = Some k
                   \<and> BTreeIndex_insert sz S rootp r
                       = Some (NonLeafPage [Child (fst (page_split root1)), Key k,
                                            Child (snd (page_split root1))])
                   \<and> root_ok (NonLeafPage [Child (fst (page_split root1)), Key k,
                                            Child (snd (page_split root1))])
                   \<and> tree_height (NonLeafPage [Child (fst (page_split root1)), Key k,
                                                Child (snd (page_split root1))])
                       = ?h + 1)"
    and stay: "\<not> used_space sz root1 > S \<longrightarrow>
                BTreeIndex_insert sz S rootp r = Some root1 \<and> root_ok root1
                \<and> tree_height root1 = ?h"
    by blast
  have h0: "get_height rootp = Some ?h" using ok by (rule root_ok_height)
  have a: "used_space sz root1 > S \<longrightarrow>
                (\<exists>k. first_key (snd (page_split root1)) = Some k
                   \<and> BTreeIndex_insert sz S rootp r
                       = Some (NonLeafPage [Child (fst (page_split root1)), Key k,
                                            Child (snd (page_split root1))])
                   \<and> get_height (NonLeafPage [Child (fst (page_split root1)), Key k,
                                               Child (snd (page_split root1))])
                       = Some (?h + 1))"
  proof
    assume "used_space sz root1 > S"
    with over obtain k where k: "first_key (snd (page_split root1)) = Some k"
      "BTreeIndex_insert sz S rootp r
         = Some (NonLeafPage [Child (fst (page_split root1)), Key k,
                              Child (snd (page_split root1))])"
      "root_ok (NonLeafPage [Child (fst (page_split root1)), Key k,
                             Child (snd (page_split root1))])"
      "tree_height (NonLeafPage [Child (fst (page_split root1)), Key k,
                                 Child (snd (page_split root1))]) = ?h + 1"
      by blast
    from root_ok_height [OF k(3)] k(4)
    have "get_height (NonLeafPage [Child (fst (page_split root1)), Key k,
                                   Child (snd (page_split root1))]) = Some (?h + 1)"
      by simp
    with k(1,2) show "\<exists>k. first_key (snd (page_split root1)) = Some k
                   \<and> BTreeIndex_insert sz S rootp r
                       = Some (NonLeafPage [Child (fst (page_split root1)), Key k,
                                            Child (snd (page_split root1))])
                   \<and> get_height (NonLeafPage [Child (fst (page_split root1)), Key k,
                                               Child (snd (page_split root1))])
                       = Some (?h + 1)"
      by blast
  qed
  have b: "\<not> used_space sz root1 > S \<longrightarrow>
                BTreeIndex_insert sz S rootp r = Some root1 \<and> get_height root1 = Some ?h"
    using stay root_ok_height [of root1] by auto
  have c: "\<forall>key. \<exists>b t. BTreeIndex_remove rootp key = Some (b, t) \<and> get_height t = Some ?h"
  proof
    fix key
    from driver_remove_ok [OF ok, of key] obtain b t where
      "BTreeIndex_remove rootp key = Some (b, t)" "root_ok t" "tree_height t = ?h" by blast
    with root_ok_height [of t]
    show "\<exists>b t. BTreeIndex_remove rootp key = Some (b, t) \<and> get_height t = Some ?h" by auto
  qed
  have d: "\<forall>key. \<exists>found. BTreeIndex_search rootp key = Some found"
    using page_search_ok [of rootp] ok by (simp add: root_ok_def BTreeIndex_search_def)
  from ins h0 a b c d show ?thesis by blast
qed

theorem root_split_grows_height_witness:
  "(0::int) \<le> 512
   \<and> bt_run cpython_sizing 512 BTreeIndex_init (inserts_upto 55) = Some tree_55
   \<and> page_insert cpython_sizing 512 tree_55 (rec3 56) = Some root_56
   \<and> used_space cpython_sizing root_56 > 512
   \<and> get_height tree_55 = Some 2
   \<and> first_key new_sibling_56 = Some 31
   \<and> BTreeIndex_insert cpython_sizing 512 tree_55 (rec3 56)
       = Some (NonLeafPage [Child old_root_56, Key 31, Child new_sibling_56])
   \<and> get_height (NonLeafPage [Child old_root_56, Key 31, Child new_sibling_56]) = Some 3
   \<and> (\<exists>b t. BTreeIndex_remove tree_55 7 = Some (b, t) \<and> get_height t = Some 2)"
proof -
  have s: "(0::int) \<le> 512" by simp
  have u: "used_space cpython_sizing root_56 > 512" by (simp add: used_space_56)
  have h2: "get_height tree_55 = Some 2" by code_simp
  from root_split_grows_height [OF s run_55, of "rec3 56"] obtain root1 h where
    t: "page_insert cpython_sizing 512 tree_55 (rec3 56) = Some root1"
    "get_height tree_55 = Some h"
    "used_space cpython_sizing root1 > 512 \<longrightarrow>
       (\<exists>k. first_key (snd (page_split root1)) = Some k
          \<and> BTreeIndex_insert cpython_sizing 512 tree_55 (rec3 56)
              = Some (NonLeafPage [Child (fst (page_split root1)), Key k,
                                   Child (snd (page_split root1))])
          \<and> get_height (NonLeafPage [Child (fst (page_split root1)), Key k,
                                      Child (snd (page_split root1))])
              = Some (h + 1))"
    "\<forall>key. \<exists>b t. BTreeIndex_remove tree_55 key = Some (b, t) \<and> get_height t = Some h"
    by blast
  from t(1) insert_56 have r: "root1 = root_56" by simp
  from t(2) h2 have h: "h = 2" by simp
  from t(3) u obtain k where k: "first_key new_sibling_56 = Some k"
    "BTreeIndex_insert cpython_sizing 512 tree_55 (rec3 56)
       = Some (NonLeafPage [Child old_root_56, Key k, Child new_sibling_56])"
    "get_height (NonLeafPage [Child old_root_56, Key k, Child new_sibling_56]) = Some 3"
    unfolding r h by (auto simp: split_56)
  have "first_key new_sibling_56 = Some 31" by (simp add: new_sibling_56_def)
  with k(1) have k31: "k = 31" by simp
  from t(4) have rm: "\<exists>b t. BTreeIndex_remove tree_55 7 = Some (b, t) \<and> get_height t = Some 2"
    unfolding h by blast
  from s run_55 insert_56 u h2 k rm show ?thesis unfolding k31 by blast
qed

section \<open>The root never collapses\<close>

text \<open>
  C10, as the statement fails: the 56th insert shortens the payload of an internal page
  that exists before it. The root of the tree after 55 inserts has 19 slots; the insert
  brings it to 21 and splits it, and the same page, now the first child of the new root,
  is left with 10.
\<close>

theorem existing_internal_page_shrinks:
  "bt_run cpython_sizing 512 BTreeIndex_init (inserts_upto 55) = Some tree_55
   \<and> \<not> is_leaf tree_55 \<and> payload_length tree_55 = 19
   \<and> page_insert cpython_sizing 512 tree_55 (rec3 56) = Some root_56
   \<and> page_split root_56 = (old_root_56, new_sibling_56)
   \<and> BTreeIndex_insert cpython_sizing 512 tree_55 (rec3 56)
       = Some (NonLeafPage [Child old_root_56, Key 31, Child new_sibling_56])
   \<and> payload_length old_root_56 = 10
   \<and> payload_length old_root_56 < payload_length tree_55"
proof -
  have a: "\<not> is_leaf tree_55" "payload_length tree_55 = 19" by (simp_all add: tree_55_def)
  have b: "payload_length old_root_56 = 10" by (simp add: old_root_56_def)
  have c: "BTreeIndex_insert cpython_sizing 512 tree_55 (rec3 56)
             = Some (NonLeafPage [Child old_root_56, Key 31, Child new_sibling_56])"
    using driver_insert_56 by (simp add: tree_56_def)
  from run_55 a insert_56 split_56 b c show ?thesis by simp
qed

text \<open>
  C10, amended. On a tree reached from a new one, with a page size that is not negative:
  an internal root has at least 3 slots; a remove returns, changes no internal page (the
  tree without its records is the same: no child and no key is dropped) and never takes
  the collapse branch; a search returns; the insert below the root does not shorten the
  payload of the root, which only the split of the root does; and after any further run
  of operations the tree is at least as high as it was.
\<close>

theorem root_never_collapses:
  assumes "0 \<le> S" and "bt_run sz S BTreeIndex_init ops = Some rootp"
  shows "(is_leaf rootp \<or> 3 \<le> payload_length rootp)
         \<and> (\<forall>key. \<exists>b t. page_remove rootp key = Some (b, t) \<and> \<not> collapses t
                \<and> BTreeIndex_remove rootp key = Some (b, t)
                \<and> page_shape t = page_shape rootp)
         \<and> (\<forall>key. \<exists>found. BTreeIndex_search rootp key = Some found)
         \<and> (\<forall>r. \<exists>root1. page_insert sz S rootp r = Some root1
                \<and> payload_length rootp \<le> payload_length root1)
         \<and> (\<forall>more. \<exists>t h h'. bt_run sz S rootp more = Some t \<and> get_height rootp = Some h
                \<and> get_height t = Some h' \<and> h \<le> h')"
proof -
  have ok: "root_ok rootp" using assms by (rule reached_root_ok)
  have a: "is_leaf rootp \<or> 3 \<le> payload_length rootp" using ok by (simp add: root_ok_def)
  have b: "\<forall>key. \<exists>b t. page_remove rootp key = Some (b, t) \<and> \<not> collapses t
                \<and> BTreeIndex_remove rootp key = Some (b, t)
                \<and> page_shape t = page_shape rootp"
  proof
    fix key
    from driver_remove_ok [OF ok, of key]
    show "\<exists>b t. page_remove rootp key = Some (b, t) \<and> \<not> collapses t
                \<and> BTreeIndex_remove rootp key = Some (b, t)
                \<and> page_shape t = page_shape rootp" by blast
  qed
  have c: "\<forall>key. \<exists>found. BTreeIndex_search rootp key = Some found"
    using page_search_ok [of rootp] ok by (simp add: root_ok_def BTreeIndex_search_def)
  have d: "\<forall>r. \<exists>root1. page_insert sz S rootp r = Some root1
                \<and> payload_length rootp \<le> payload_length root1"
  proof
    fix r
    from driver_insert_ok [OF ok assms(1), of sz r]
    show "\<exists>root1. page_insert sz S rootp r = Some root1
                \<and> payload_length rootp \<le> payload_length root1" by blast
  qed
  have e: "\<forall>more. \<exists>t h h'. bt_run sz S rootp more = Some t \<and> get_height rootp = Some h
                \<and> get_height t = Some h' \<and> h \<le> h'"
  proof
    fix more
    from driver_run_ok [OF ok assms(1), of sz more] obtain t where
      t: "bt_run sz S rootp more = Some t" "root_ok t" "tree_height rootp \<le> tree_height t"
      by blast
    with root_ok_height [OF ok] root_ok_height [of t]
    show "\<exists>t h h'. bt_run sz S rootp more = Some t \<and> get_height rootp = Some h
                \<and> get_height t = Some h' \<and> h \<le> h'" by auto
  qed
  from a b c d e show ?thesis by blast
qed

theorem root_never_collapses_witness:
  "(0::int) \<le> 512
   \<and> bt_run cpython_sizing 512 BTreeIndex_init (inserts_upto 55) = Some tree_55
   \<and> (is_leaf tree_55 \<or> 3 \<le> payload_length tree_55)
   \<and> (\<exists>b t. page_remove tree_55 7 = Some (b, t) \<and> \<not> collapses t
          \<and> BTreeIndex_remove tree_55 7 = Some (b, t)
          \<and> page_shape t = page_shape tree_55)
   \<and> (\<exists>found. BTreeIndex_search tree_55 7 = Some found)
   \<and> (\<exists>root1. page_insert cpython_sizing 512 tree_55 (rec3 56) = Some root1
          \<and> payload_length tree_55 \<le> payload_length root1)
   \<and> (\<exists>t h h'. bt_run cpython_sizing 512 tree_55 [BInsert (rec3 56), BRemove 7] = Some t
          \<and> get_height tree_55 = Some h \<and> get_height t = Some h' \<and> h \<le> h')"
proof -
  have s: "(0::int) \<le> 512" by simp
  note t = root_never_collapses [OF s run_55]
  from s run_55 t show ?thesis by blast
qed

end
